theory Spec2Isabelle
  imports Main
begin

section \<open>Python values and library primitives\<close>

text \<open>
  The batch generator of \<^verbatim>\<open>lm_keras_generators.py\<close> and the sequence preparer of
  \<^verbatim>\<open>03_train.py\<close> work on Python integers, lists and numpy arrays of token ids.
  Integers are modelled by \<^typ>\<open>int\<close>, one- and two-dimensional arrays by lists and lists
  of rows. Every exception the code can raise is a value of \<open>error\<close>; a computation
  that may raise returns \<open>error + 'a\<close> with \<open>Inl\<close> the exception.
  Token ids are taken to lie in the range of numpy's \<^verbatim>\<open>int32\<close>, where the cast
  that \<^verbatim>\<open>pad_sequences\<close> applies is the identity.
\<close>

datatype error = ValueError | ZeroDivisionError | IndexError | TypeError

text \<open>Python's \<^verbatim>\<open>a // b\<close>: floor division, raising on a zero divisor.\<close>

definition py_floordiv :: "int \<Rightarrow> int \<Rightarrow> error + int" where
  "py_floordiv a b = (if b = 0 then Inl ZeroDivisionError else Inr (a div b))"

text \<open>
  Slice bounds: a negative bound counts from the end, and every bound is clipped to
  the length of the sequence.
\<close>

definition clip_index :: "nat \<Rightarrow> int \<Rightarrow> nat" where
  "clip_index n i = (if i < 0 then nat (int n + i) else min n (nat i))"

definition slice :: "int \<Rightarrow> int \<Rightarrow> 'a list \<Rightarrow> 'a list" where
  \<comment> \<open>\<^verbatim>\<open>xs[a:b]\<close>\<close>
  "slice a b xs =
     (let lo = clip_index (length xs) a; hi = clip_index (length xs) b
      in take (hi - lo) (drop lo xs))"

definition slice_from :: "int \<Rightarrow> 'a list \<Rightarrow> 'a list" where
  \<comment> \<open>\<^verbatim>\<open>xs[a:]\<close>\<close>
  "slice_from a xs = drop (clip_index (length xs) a) xs"

definition slice_upto :: "int \<Rightarrow> 'a list \<Rightarrow> 'a list" where
  \<comment> \<open>\<^verbatim>\<open>xs[:b]\<close>\<close>
  "slice_upto b xs = take (clip_index (length xs) b) xs"

text \<open>\<^verbatim>\<open>xs[i] = v\<close>: an index outside \<open>[-len, len)\<close> raises.\<close>

definition setitem :: "int list \<Rightarrow> int \<Rightarrow> int \<Rightarrow> error + int list" where
  "setitem xs i v =
     (let j = (if i < 0 then int (length xs) + i else i)
      in if 0 \<le> j \<and> j < int (length xs) then Inr (xs[nat j := v]) else Inl IndexError)"

text \<open>The first exception of a list of results, or all the values.\<close>

fun collect :: "(error + 'a) list \<Rightarrow> error + 'a list" where
  "collect [] = Inr []"
| "collect (r # rs) =
     (case r of
        Inl e \<Rightarrow> Inl e
      | Inr v \<Rightarrow> (case collect rs of Inl e \<Rightarrow> Inl e | Inr vs \<Rightarrow> Inr (v # vs)))"

subsection \<open>Keras \<^verbatim>\<open>pad_sequences\<close>\<close>

text \<open>
  \<^verbatim>\<open>pad_sequences(seqs, maxlen, padding, truncating, value)\<close> allocates an array of
  \<open>len(seqs)\<close> rows and \<open>maxlen\<close> columns filled with \<open>value\<close> (a negative
  \<open>maxlen\<close> is refused by numpy), skips every empty sequence, cuts the others to
  \<open>s[-maxlen:]\<close> (truncating \<open>pre\<close>, the default) or \<open>s[:maxlen]\<close> (truncating
  \<open>post\<close>), and stores the cut sequence at the start (padding \<open>post\<close>) or at the end
  (padding \<open>pre\<close>, the default) of its row. With \<open>maxlen = 0\<close> the slice
  \<open>s[-0:]\<close> is all of \<open>s\<close>, which does not fit the row: numpy raises.
\<close>

datatype direction = Pre | Post

definition pad_row :: "direction \<Rightarrow> direction \<Rightarrow> int \<Rightarrow> int \<Rightarrow> int list \<Rightarrow> error + int list" where
  "pad_row padding truncating maxlen val s =
     (if s = [] then Inr (replicate (nat maxlen) val)
      else
        let trunc = (case truncating of
                       Pre \<Rightarrow> slice_from (- maxlen) s
                     | Post \<Rightarrow> slice_upto maxlen s)
        in if maxlen < int (length trunc) then Inl ValueError
           else (case padding of
                   Post \<Rightarrow> Inr (trunc @ replicate (nat maxlen - length trunc) val)
                 | Pre \<Rightarrow> Inr (replicate (nat maxlen - length trunc) val @ trunc)))"

definition pad_sequences ::
  "direction \<Rightarrow> direction \<Rightarrow> int \<Rightarrow> int \<Rightarrow> int list list \<Rightarrow> error + int list list" where
  "pad_sequences padding truncating maxlen val seqs =
     (if maxlen < 0 then Inl ValueError
      else collect (map (pad_row padding truncating maxlen val) seqs))"

section \<open>The batch generator\<close>

text \<open>
  \<^verbatim>\<open>x_sequences\<close> is either the sequence table (a two-dimensional array) or, with
  \<^verbatim>\<open>no_slurp\<close>, the path of the corpus file.
\<close>

datatype source = Table "int list list" | CorpusPath string

fun len_source :: "source \<Rightarrow> int" where
  "len_source (Table rows) = int (length rows)"
| "len_source (CorpusPath p) = int (length p)"

record generator =
  x_sequences :: source
  explicit_seq_len :: int
  no_slurp :: bool
  max_seq_len :: int
  min_seq_len :: int
  num_shifted_sentences :: int
  current_idx :: int
  skip_step :: int
  pad_idx_or_symbol :: int

text \<open>
  \<^verbatim>\<open>__init__\<close>. The only check is \<^verbatim>\<open>skip_step > max_seq_len\<close>, which raises
  \<^verbatim>\<open>ValueError\<close>. \<^verbatim>\<open>explicit_x_seq_len or len(x_sequences)\<close> takes the length of
  \<^verbatim>\<open>x_sequences\<close> when the explicit count is \<^verbatim>\<open>None\<close> or zero.
\<close>

definition init ::
  "source \<Rightarrow> int \<Rightarrow> int \<Rightarrow> int \<Rightarrow> int \<Rightarrow> int \<Rightarrow> int option \<Rightarrow> bool \<Rightarrow> error + generator" where
  "init xs maxlen minlen shifted pad skip explicit noslurp =
     (if skip > maxlen then Inl ValueError
      else Inr \<lparr> x_sequences = xs,
                 explicit_seq_len =
                   (case explicit of
                      None \<Rightarrow> len_source xs
                    | Some e \<Rightarrow> if e \<noteq> 0 then e else len_source xs),
                 no_slurp = noslurp,
                 max_seq_len = maxlen,
                 min_seq_len = minlen,
                 num_shifted_sentences = shifted,
                 current_idx = 0,
                 skip_step = skip,
                 pad_idx_or_symbol = pad \<rparr>)"

subsection \<open>Sizing\<close>

definition get_num_sliding_windows :: "generator \<Rightarrow> error + int" where
  "get_num_sliding_windows g = py_floordiv (max_seq_len g) (skip_step g)"

definition get_batch_size :: "generator \<Rightarrow> error + int" where
  "get_batch_size g =
     (case get_num_sliding_windows g of
        Inl e \<Rightarrow> Inl e
      | Inr w \<Rightarrow> Inr (num_shifted_sentences g * w))"

definition get_epoch_size :: "generator \<Rightarrow> error + int" where
  "get_epoch_size g =
     (case get_num_sliding_windows g of
        Inl e \<Rightarrow> Inl e
      | Inr w \<Rightarrow> Inr (explicit_seq_len g * w))"

definition get_steps_per_epoch :: "generator \<Rightarrow> error + int" where
  "get_steps_per_epoch g =
     (case get_epoch_size g of
        Inl e \<Rightarrow> Inl e
      | Inr ep \<Rightarrow> (case get_batch_size g of
                     Inl e \<Rightarrow> Inl e
                   | Inr b \<Rightarrow> py_floordiv ep b))"

subsection \<open>Windowing\<close>

text \<open>
  The reserved pad id of \<^verbatim>\<open>03_train.py\<close>. The generator does not use the name: it
  writes the literal \<open>1\<close> (and \<open>3\<close> for the end marker).
\<close>

definition PAD_ID :: int where
  "PAD_ID = 1"

text \<open>
  The loop over \<^verbatim>\<open>window_idx\<close>, the same text in both strategies: every row of the
  block is cut on the left by \<^verbatim>\<open>window_idx * skip_step\<close> columns and appended to
  \<open>x\<close>; the same rows without their first column are appended to \<open>y\<close>.
\<close>

fun window_loop ::
  "nat list \<Rightarrow> int \<Rightarrow> int list list \<Rightarrow> int list list \<times> int list list
     \<Rightarrow> int list list \<times> int list list" where
  "window_loop [] skip block (x, y) = (x, y)"
| "window_loop (w # ws) skip block (x, y) =
     (let x_shifted = map (slice_from (int w * skip)) block
      in window_loop ws skip block (x @ x_shifted, y @ map (slice_from 1) x_shifted))"

definition shift_windows :: "int \<Rightarrow> int \<Rightarrow> int list list \<Rightarrow> int list list \<times> int list list" where
  \<comment> \<open>\<^verbatim>\<open>for window_idx in range(num_sliding_windows)\<close>\<close>
  "shift_windows nsw skip block = window_loop [0..<nat nsw] skip block ([], [])"

text \<open>
  The two closing calls of \<^verbatim>\<open>pad_sequences\<close>, again the same in both strategies:
  padding \<open>post\<close>, truncating left at its default \<open>pre\<close>, and the value the
  literal \<open>1\<close>.
\<close>

definition repad ::
  "generator \<Rightarrow> int list list \<times> int list list \<Rightarrow> error + (int list list \<times> int list list)" where
  "repad g xy =
     (case pad_sequences Post Pre (max_seq_len g) 1 (fst xy) of
        Inl e \<Rightarrow> Inl e
      | Inr x \<Rightarrow> (case pad_sequences Post Pre (max_seq_len g) 1 (snd xy) of
                    Inl e \<Rightarrow> Inl e
                  | Inr y \<Rightarrow> Inr (x, y)))"

subsection \<open>The in-memory strategy\<close>

definition wrap_cursor :: "generator \<Rightarrow> generator" where
  "wrap_cursor g =
     (if current_idx g + num_shifted_sentences g \<ge> explicit_seq_len g
      then g\<lparr>current_idx := 0\<rparr> else g)"

text \<open>
  The block \<^verbatim>\<open>x_sequences[current_idx : current_idx + num_shifted_sentences]\<close>.
\<close>

definition slurped_block :: "generator \<Rightarrow> int list list \<Rightarrow> int list list" where
  "slurped_block g rows =
     slice (current_idx g) (current_idx g + num_shifted_sentences g) rows"

text \<open>
  One turn of the \<^verbatim>\<open>while True\<close> loop of \<^verbatim>\<open>generate_slurped\<close>, up to its
  \<^verbatim>\<open>yield\<close>: the batch and the generator with its advanced cursor. Indexing a path
  (a string) with \<^verbatim>\<open>[:, k:]\<close> raises \<^verbatim>\<open>TypeError\<close>; that happens in the first
  window, if there is one.
\<close>

definition slurped_iteration ::
  "int \<Rightarrow> generator \<Rightarrow> error + ((int list list \<times> int list list) \<times> generator)" where
  "slurped_iteration nsw g =
     (let g1 = wrap_cursor g;
          g2 = g1\<lparr>current_idx := current_idx g1 + num_shifted_sentences g1\<rparr>
      in case x_sequences g1 of
           CorpusPath p \<Rightarrow>
             if 0 < nsw then Inl TypeError
             else (case repad g2 ([], []) of Inl e \<Rightarrow> Inl e | Inr b \<Rightarrow> Inr (b, g2))
         | Table rows \<Rightarrow>
             (case repad g2 (shift_windows nsw (skip_step g1) (slurped_block g1 rows)) of
                Inl e \<Rightarrow> Inl e
              | Inr b \<Rightarrow> Inr (b, g2)))"

text \<open>The first \<open>k\<close> batches pulled from the loop, and the generator after them.\<close>

fun slurped_run ::
  "int \<Rightarrow> generator \<Rightarrow> nat \<Rightarrow> error + ((int list list \<times> int list list) list \<times> generator)" where
  "slurped_run nsw g 0 = Inr ([], g)"
| "slurped_run nsw g (Suc k) =
     (case slurped_iteration nsw g of
        Inl e \<Rightarrow> Inl e
      | Inr (b, g') \<Rightarrow>
          (case slurped_run nsw g' k of
             Inl e \<Rightarrow> Inl e
           | Inr (bs, g'') \<Rightarrow> Inr (b # bs, g'')))"

text \<open>
  \<^verbatim>\<open>generate_slurped\<close>: the number of windows is computed once, when the first batch
  is requested, and the loop runs from there.
\<close>

definition generate_slurped ::
  "generator \<Rightarrow> nat \<Rightarrow> error + ((int list list \<times> int list list) list \<times> generator)" where
  "generate_slurped g k =
     (if k = 0 then Inr ([], g)
      else (case py_floordiv (max_seq_len g) (skip_step g) of
              Inl e \<Rightarrow> Inl e
            | Inr nsw \<Rightarrow> slurped_run nsw g k))"

definition reset :: "generator \<Rightarrow> generator" where
  "reset g = g\<lparr>current_idx := 0\<rparr>"

subsection \<open>The corpus file\<close>

text \<open>
  The on-disk strategy opens the corpus in text mode and moves in it by
  \<^verbatim>\<open>readline\<close> and \<^verbatim>\<open>seek(0)\<close> only, so the handle always stands at the start of a
  line. The file is the list of its lines, each with its terminator (the last line may
  lack one), in an encoding of one byte per character; the handle is the number of lines
  read. \<^verbatim>\<open>tell\<close> is the byte offset of the handle, \<^verbatim>\<open>os.path.getsize\<close> the size of
  the file in bytes, and \<^verbatim>\<open>readline\<close> at the end of the file returns the empty string
  and leaves the handle where it is.
\<close>

type_synonym corpus = "string list"

definition getsize :: "corpus \<Rightarrow> nat" where
  "getsize f = length (concat f)"

definition tell :: "corpus \<Rightarrow> nat \<Rightarrow> nat" where
  "tell f pos = length (concat (take pos f))"

definition readline :: "corpus \<Rightarrow> nat \<Rightarrow> string \<times> nat" where
  "readline f pos = (if pos < length f then (f ! pos, Suc pos) else ([], pos))"

text \<open>
  \<^verbatim>\<open>np.genfromtxt(StringIO(line), dtype=int)\<close> on one line of text: what follows a
  \<^verbatim>\<open>#\<close> is a comment, the rest is split at white space, and every field is read as
  an integer, a field that is not a decimal numeral becoming numpy's filling value
  \<open>-1\<close>. The result is squeezed: no field gives an empty one-dimensional array,
  several fields a one-dimensional array, and a single field a zero-dimensional array,
  on which \<^verbatim>\<open>len\<close> raises \<^verbatim>\<open>TypeError\<close>.
\<close>

datatype ndarray = Scalar int | Vector "int list"

definition is_space :: "char \<Rightarrow> bool" where
  "is_space c = (c = CHR '' '' \<or> c = CHR 0x09 \<or> c = CHR 0x0A \<or> c = CHR 0x0B
                 \<or> c = CHR 0x0C \<or> c = CHR 0x0D)"

fun fields :: "string \<Rightarrow> string \<Rightarrow> string list" where
  "fields cur [] = (if cur = [] then [] else [cur])"
| "fields cur (c # cs) =
     (if is_space c then (if cur = [] then [] else [cur]) @ fields [] cs
      else fields (cur @ [c]) cs)"

definition digit_of :: "char \<Rightarrow> nat option" where
  "digit_of c =
     (let n = (of_char c :: nat) in if 48 \<le> n \<and> n \<le> 57 then Some (n - 48) else None)"

fun decimal :: "nat \<Rightarrow> string \<Rightarrow> nat option" where
  "decimal acc [] = Some acc"
| "decimal acc (c # cs) =
     (case digit_of c of None \<Rightarrow> None | Some d \<Rightarrow> decimal (10 * acc + d) cs)"

definition int_of_field :: "string \<Rightarrow> int" where
  "int_of_field s =
     (case s of
        [] \<Rightarrow> - 1
      | c # cs \<Rightarrow>
          if (c = CHR ''-'' \<or> c = CHR ''+'') \<and> cs \<noteq> [] then
            (case decimal 0 cs of
               None \<Rightarrow> - 1
             | Some n \<Rightarrow> if c = CHR ''-'' then - int n else int n)
          else (case decimal 0 s of None \<Rightarrow> - 1 | Some n \<Rightarrow> int n))"

definition genfromtxt :: "string \<Rightarrow> ndarray" where
  "genfromtxt text =
     (case map int_of_field (fields [] (takeWhile (\<lambda>c. c \<noteq> CHR ''#'') text)) of
        [v] \<Rightarrow> Scalar v
      | vs \<Rightarrow> Vector vs)"

subsection \<open>The on-disk strategy\<close>

text \<open>
  The inner \<^verbatim>\<open>while True\<close> loop of \<^verbatim>\<open>generate_from_disk\<close>, which collects the
  block. Nothing bounds the number of its turns, so the model counts them: one unit of
  fuel is one \<^verbatim>\<open>readline\<close>, and \<open>None\<close> says that the loop has not ended within the
  fuel given. The arguments after the fuel are the handle, \<^verbatim>\<open>x_local_sequences\<close> and
  \<^verbatim>\<open>cnt\<close>.
\<close>

fun read_block ::
  "generator \<Rightarrow> corpus \<Rightarrow> nat \<Rightarrow> nat \<Rightarrow> int list list \<Rightarrow> int
     \<Rightarrow> (error + (int list list \<times> nat)) option" where
  "read_block g f 0 pos acc cnt = None"
| "read_block g f (Suc fuel) pos acc cnt =
     (let pos1 = (if tell f pos > getsize f then 0 else pos);
          (text, pos2) = readline f pos1
      in case genfromtxt text of
           Scalar v \<Rightarrow> Some (Inl TypeError)
         | Vector line \<Rightarrow>
             if int (length line) < min_seq_len g then read_block g f fuel pos2 acc cnt
             else
               (case (if int (length line) > max_seq_len g
                      then setitem line (max_seq_len g - 1) 3 else Inr line) of
                  Inl e \<Rightarrow> Some (Inl e)
                | Inr line' \<Rightarrow>
                    if cnt + 1 \<ge> num_shifted_sentences g
                    then Some (Inr (acc @ [line'], pos2))
                    else read_block g f fuel pos2 (acc @ [line']) (cnt + 1)))"

text \<open>
  One turn of the outer loop, up to its \<^verbatim>\<open>yield\<close>: the block is read, padded and cut
  to \<^verbatim>\<open>max_seq_len\<close> columns with \<^verbatim>\<open>pad_idx_or_symbol\<close>, and windowed.
\<close>

definition disk_iteration ::
  "nat \<Rightarrow> int \<Rightarrow> generator \<Rightarrow> corpus \<Rightarrow> nat
     \<Rightarrow> (error + ((int list list \<times> int list list) \<times> nat)) option" where
  "disk_iteration fuel nsw g f pos =
     (case read_block g f fuel pos [] 0 of
        None \<Rightarrow> None
      | Some (Inl e) \<Rightarrow> Some (Inl e)
      | Some (Inr (block, pos')) \<Rightarrow>
          (case pad_sequences Post Post (max_seq_len g) (pad_idx_or_symbol g) block of
             Inl e \<Rightarrow> Some (Inl e)
           | Inr x_local_sequences \<Rightarrow>
               (case repad g (shift_windows nsw (skip_step g) x_local_sequences) of
                  Inl e \<Rightarrow> Some (Inl e)
                | Inr b \<Rightarrow> Some (Inr (b, pos')))))"

fun disk_run ::
  "nat \<Rightarrow> int \<Rightarrow> generator \<Rightarrow> corpus \<Rightarrow> nat \<Rightarrow> nat
     \<Rightarrow> (error + ((int list list \<times> int list list) list \<times> nat)) option" where
  "disk_run fuel nsw g f pos 0 = Some (Inr ([], pos))"
| "disk_run fuel nsw g f pos (Suc k) =
     (case disk_iteration fuel nsw g f pos of
        None \<Rightarrow> None
      | Some (Inl e) \<Rightarrow> Some (Inl e)
      | Some (Inr (b, pos')) \<Rightarrow>
          (case disk_run fuel nsw g f pos' k of
             None \<Rightarrow> None
           | Some (Inl e) \<Rightarrow> Some (Inl e)
           | Some (Inr (bs, pos'')) \<Rightarrow> Some (Inr (b # bs, pos''))))"

text \<open>
  \<^verbatim>\<open>generate_from_disk\<close> on the file \<open>f\<close> that the path names: the first \<open>k\<close>
  batches, each read with at most \<open>fuel\<close> calls of \<^verbatim>\<open>readline\<close>, and the handle
  after them. \<^verbatim>\<open>os.path.getsize\<close> of an array raises \<^verbatim>\<open>TypeError\<close>.
\<close>

definition generate_from_disk ::
  "nat \<Rightarrow> generator \<Rightarrow> corpus \<Rightarrow> nat
     \<Rightarrow> (error + ((int list list \<times> int list list) list \<times> nat)) option" where
  "generate_from_disk fuel g f k =
     (if k = 0 then Some (Inr ([], 0))
      else (case py_floordiv (max_seq_len g) (skip_step g) of
              Inl e \<Rightarrow> Some (Inl e)
            | Inr nsw \<Rightarrow>
                (case x_sequences g of
                   Table rows \<Rightarrow> Some (Inl TypeError)
                 | CorpusPath p \<Rightarrow> disk_run fuel nsw g f 0 k)))"

section \<open>The sequence preparer\<close>

text \<open>
  \<^verbatim>\<open>prepare_sequences\<close> of \<^verbatim>\<open>03_train.py\<close>. The tokenizer is a parameter
  \<open>encode\<close>; the corpus is the list of its lines. A line shorter than
  \<^verbatim>\<open>min_seq_len\<close> is skipped (\<open>None\<close>); a line longer than \<^verbatim>\<open>max_seq_len\<close> is cut
  to \<^verbatim>\<open>pieces[0:max_seq_len]\<close> and, with \<^verbatim>\<open>add_eos\<close>, its last id overwritten by
  \<open>3\<close>.
\<close>

definition prepare_line :: "int \<Rightarrow> int \<Rightarrow> bool \<Rightarrow> int list \<Rightarrow> (error + int list) option" where
  "prepare_line minlen maxlen add_eos pieces =
     (if int (length pieces) < minlen then None
      else if int (length pieces) > maxlen then
        (let cut = slice 0 maxlen pieces
         in if add_eos then Some (setitem cut (- 1) 3) else Some (Inr cut))
      else Some (Inr pieces))"

fun prepare_loop ::
  "(string \<Rightarrow> int list) \<Rightarrow> int \<Rightarrow> int \<Rightarrow> bool \<Rightarrow> string list \<Rightarrow> int list list
     \<Rightarrow> error + int list list" where
  "prepare_loop encode minlen maxlen add_eos [] x_seqs = Inr x_seqs"
| "prepare_loop encode minlen maxlen add_eos (line # rest) x_seqs =
     (case prepare_line minlen maxlen add_eos (encode line) of
        None \<Rightarrow> prepare_loop encode minlen maxlen add_eos rest x_seqs
      | Some (Inl e) \<Rightarrow> Inl e
      | Some (Inr pieces) \<Rightarrow>
          prepare_loop encode minlen maxlen add_eos rest (x_seqs @ [pieces]))"

text \<open>
  After the loop the first ten sequences are logged: \<^verbatim>\<open>x_sequences[i]\<close> for
  \<open>i\<close> in \<^verbatim>\<open>range(10)\<close> raises \<^verbatim>\<open>IndexError\<close> on a list of fewer than ten. Then
  all sequences are padded with \<^verbatim>\<open>PAD_ID\<close> in the direction asked for.
\<close>

definition prepare_sequences ::
  "(string \<Rightarrow> int list) \<Rightarrow> int \<Rightarrow> int \<Rightarrow> bool \<Rightarrow> direction \<Rightarrow> string list
     \<Rightarrow> error + int list list" where
  "prepare_sequences encode minlen maxlen add_eos padding_direction lines =
     (case prepare_loop encode minlen maxlen add_eos lines [] of
        Inl e \<Rightarrow> Inl e
      | Inr x_seqs \<Rightarrow>
          if length x_seqs < 10 then Inl IndexError
          else pad_sequences padding_direction Pre maxlen PAD_ID x_seqs)"

section \<open>Properties\<close>

subsection \<open>Results of \<open>collect\<close>, slices and \<^verbatim>\<open>pad_sequences\<close>\<close>

lemma collect_Inr_iff:
  "collect rs = Inr vs \<longleftrightarrow> rs = map Inr vs"
proof (induction rs arbitrary: vs)
  case Nil
  then show ?case by auto
next
  case (Cons r rs)
  show ?case
  proof (cases r)
    case (Inl e)
    then show ?thesis by auto
  next
    case (Inr v)
    show ?thesis
    proof (cases "collect rs")
      case (Inl e)
      with Cons.IH have "\<And>ws. rs \<noteq> map Inr ws" by auto
      with Inl Inr show ?thesis by (cases vs) auto
    next
      case right: (Inr ws)
      from Cons.IH [of ws] right have "rs = map Inr ws" by blast
      with right Inr show ?thesis by (cases vs) auto
    qed
  qed
qed

lemma collect_map_Inr:
  "(\<And>x. x \<in> set xs \<Longrightarrow> f x = Inr (h x)) \<Longrightarrow> collect (map f xs) = Inr (map h xs)"
  by (simp add: collect_Inr_iff)

lemma collect_map_nth:
  assumes "collect (map f xs) = Inr ys"
  shows "length ys = length xs" and "\<And>i. i < length xs \<Longrightarrow> f (xs ! i) = Inr (ys ! i)"
proof -
  from assms have eq: "map f xs = map Inr ys" by (simp add: collect_Inr_iff)
  then show len: "length ys = length xs" by (metis length_map)
  fix i assume "i < length xs"
  with eq len show "f (xs ! i) = Inr (ys ! i)" by (metis nth_map)
qed

lemma length_slice_from_le: "length (slice_from a xs) \<le> length xs"
  by (simp add: slice_from_def)

lemma slice_from_nonneg: "0 \<le> a \<Longrightarrow> slice_from a xs = drop (nat a) xs"
  by (simp add: slice_from_def clip_index_def min_def)

lemma slice_from_1: "slice_from 1 xs = drop 1 xs"
  by (simp add: slice_from_nonneg)

lemma pad_row_length:
  assumes "pad_row padding truncating m v s = Inr r" and "0 \<le> m"
  shows "length r = nat m"
  using assms
  by (cases padding; cases truncating)
     (auto simp: pad_row_def Let_def split: if_splits)

lemma pad_sequences_shape:
  assumes "pad_sequences padding truncating m v seqs = Inr rows"
  shows "0 \<le> m" and "length rows = length seqs" and "\<And>r. r \<in> set rows \<Longrightarrow> length r = nat m"
proof -
  from assms show m: "0 \<le> m"
    by (simp add: pad_sequences_def split: if_splits)
  with assms have c: "collect (map (pad_row padding truncating m v) seqs) = Inr rows"
    by (simp add: pad_sequences_def)
  then show len: "length rows = length seqs" by (rule collect_map_nth)
  fix r assume "r \<in> set rows"
  then obtain i where "i < length rows" "r = rows ! i" by (auto simp: in_set_conv_nth)
  with collect_map_nth(2) [OF c, of i] len
  have "pad_row padding truncating m v (seqs ! i) = Inr r" by simp
  with m show "length r = nat m" by (rule pad_row_length [rotated])
qed

lemma pad_row_post_pre_fits:
  assumes "length s \<le> nat m"
  shows "pad_row Post Pre m v s = Inr (s @ replicate (nat m - length s) v)"
proof (cases "s = []")
  case True
  then show ?thesis by (simp add: pad_row_def)
next
  case False
  with assms have "0 < m" by (cases s) auto
  with assms have "slice_from (- m) s = s"
    by (simp add: slice_from_def clip_index_def)
  with False assms \<open>0 < m\<close> show ?thesis
    by (simp add: pad_row_def)
qed

lemma pad_row_post_post:
  assumes "0 \<le> m"
  shows "pad_row Post Post m v s = Inr (take (nat m) s @ replicate (nat m - length s) v)"
proof (cases "s = []")
  case True
  then show ?thesis by (simp add: pad_row_def)
next
  case False
  from assms have "slice_upto m s = take (nat m) s"
    by (simp add: slice_upto_def clip_index_def min_def)
  with False assms show ?thesis
    by (auto simp: pad_row_def min_def)
qed

lemma pad_sequences_post_post:
  assumes "0 \<le> m"
  shows "pad_sequences Post Post m v seqs =
         Inr (map (\<lambda>s. take (nat m) s @ replicate (nat m - length s) v) seqs)"
  using assms by (simp add: pad_sequences_def collect_map_Inr pad_row_post_post)

lemma pad_sequences_post_pre_fits:
  assumes "0 \<le> m" and "\<And>s. s \<in> set seqs \<Longrightarrow> length s \<le> nat m"
  shows "pad_sequences Post Pre m v seqs =
         Inr (map (\<lambda>s. s @ replicate (nat m - length s) v) seqs)"
  using assms by (simp add: pad_sequences_def collect_map_Inr pad_row_post_pre_fits)

lemma pad_row_post_pre_cells:
  assumes "pad_row Post Pre m v s = Inr r" and "length s \<le> k" and "k < nat m"
  shows "r ! k = v"
proof (cases "s = []")
  case True
  with assms show ?thesis by (auto simp: pad_row_def)
next
  case False
  define t where "t = slice_from (- m) s"
  have "length t \<le> length s" by (simp add: t_def length_slice_from_le)
  moreover from assms False have "r = t @ replicate (nat m - length t) v"
    by (auto simp: pad_row_def t_def Let_def split: if_splits)
  ultimately show ?thesis using assms by (simp add: nth_append)
qed

lemma window_loop_concat:
  "window_loop ws skip block (x, y) =
     (x @ concat (map (\<lambda>w. map (slice_from (int w * skip)) block) ws),
      y @ concat (map (\<lambda>w. map (\<lambda>r. slice_from 1 (slice_from (int w * skip) r)) block) ws))"
  by (induction ws arbitrary: x y) (simp_all add: Let_def comp_def)

lemma shift_windows_fst:
  "fst (shift_windows nsw skip block) =
     concat (map (\<lambda>w. map (slice_from (int w * skip)) block) [0..<nat nsw])"
  by (simp add: shift_windows_def window_loop_concat)

lemma shift_windows_snd:
  "snd (shift_windows nsw skip block) = map (drop 1) (fst (shift_windows nsw skip block))"
  by (simp add: shift_windows_def window_loop_concat map_concat comp_def slice_from_1)

lemma length_concat_const:
  "(\<And>xs. xs \<in> set xss \<Longrightarrow> length xs = n) \<Longrightarrow> length (concat xss) = length xss * n"
  by (induction xss) simp_all

lemma shift_windows_rows:
  "length (fst (shift_windows nsw skip block)) = nat nsw * length block"
proof -
  have "length (concat (map (\<lambda>w. map (slice_from (int w * skip)) block) [0..<nat nsw])) =
        length (map (\<lambda>w. map (slice_from (int w * skip)) block) [0..<nat nsw]) * length block"
    by (rule length_concat_const) auto
  then show ?thesis by (simp add: shift_windows_fst)
qed

lemma shift_windows_row_length:
  assumes "r \<in> set (fst (shift_windows nsw skip block))"
  shows "\<exists>b \<in> set block. length r \<le> length b"
  using assms by (auto simp: shift_windows_fst intro: length_slice_from_le)

subsection \<open>Sizing\<close>

text \<open>
  C2. For every constructed generator the four sizing methods compute exactly
  \<open>max_seq_len // skip_step\<close>, \<open>num_shifted_sentences * num_sliding_windows\<close>,
  \<open>explicit_seq_len * num_sliding_windows\<close> and \<open>epoch_size // batch_size\<close>, in
  integer (floor) arithmetic. Where a divisor is zero the Python expression of the claim
  raises \<^verbatim>\<open>ZeroDivisionError\<close>, and so does the method.
\<close>

theorem sizing_formulas:
  assumes "init xs maxlen minlen shifted pad skip explicit noslurp = Inr g"
  shows "max_seq_len g = maxlen \<and> skip_step g = skip \<and> num_shifted_sentences g = shifted \<and>
         (let w = max_seq_len g div skip_step g;
              b = num_shifted_sentences g * w;
              ep = explicit_seq_len g * w
          in if skip_step g = 0
             then get_num_sliding_windows g = Inl ZeroDivisionError \<and>
                  get_batch_size g = Inl ZeroDivisionError \<and>
                  get_epoch_size g = Inl ZeroDivisionError \<and>
                  get_steps_per_epoch g = Inl ZeroDivisionError
             else get_num_sliding_windows g = Inr w \<and>
                  get_batch_size g = Inr b \<and>
                  get_epoch_size g = Inr ep \<and>
                  get_steps_per_epoch g =
                    (if b = 0 then Inl ZeroDivisionError else Inr (ep div b)))"
proof -
  from assms have "max_seq_len g = maxlen" "skip_step g = skip" "num_shifted_sentences g = shifted"
    by (auto simp: init_def split: if_splits)
  moreover have "get_num_sliding_windows g =
      (if skip_step g = 0 then Inl ZeroDivisionError else Inr (max_seq_len g div skip_step g))"
    by (simp add: get_num_sliding_windows_def py_floordiv_def)
  ultimately show ?thesis
    by (simp add: Let_def get_batch_size_def get_epoch_size_def get_steps_per_epoch_def
        py_floordiv_def)
qed

theorem sizing_formulas_witness:
  "get_num_sliding_windows
     \<lparr>x_sequences = Table [], explicit_seq_len = 100, no_slurp = False, max_seq_len = 10,
      min_seq_len = 3, num_shifted_sentences = 10, current_idx = 0, skip_step = 5,
      pad_idx_or_symbol = 1\<rparr> = Inr 2 \<and>
   get_batch_size
     \<lparr>x_sequences = Table [], explicit_seq_len = 100, no_slurp = False, max_seq_len = 10,
      min_seq_len = 3, num_shifted_sentences = 10, current_idx = 0, skip_step = 5,
      pad_idx_or_symbol = 1\<rparr> = Inr 20 \<and>
   get_epoch_size
     \<lparr>x_sequences = Table [], explicit_seq_len = 100, no_slurp = False, max_seq_len = 10,
      min_seq_len = 3, num_shifted_sentences = 10, current_idx = 0, skip_step = 5,
      pad_idx_or_symbol = 1\<rparr> = Inr 200 \<and>
   get_steps_per_epoch
     \<lparr>x_sequences = Table [], explicit_seq_len = 100, no_slurp = False, max_seq_len = 10,
      min_seq_len = 3, num_shifted_sentences = 10, current_idx = 0, skip_step = 5,
      pad_idx_or_symbol = 1\<rparr> = Inr 10"
proof -
  have "init (Table []) 10 3 10 1 5 (Some 100) False =
      Inr \<lparr>x_sequences = Table [], explicit_seq_len = 100, no_slurp = False, max_seq_len = 10,
      min_seq_len = 3, num_shifted_sentences = 10, current_idx = 0, skip_step = 5,
      pad_idx_or_symbol = 1\<rparr>"
    by (simp add: init_def)
  from sizing_formulas [OF this] show ?thesis
    by simp
qed

text \<open>
  C4, as stated, fails where \<open>skip_step = max_seq_len = 0\<close>: the guard lets the
  generator be constructed, and \<^verbatim>\<open>get_num_sliding_windows\<close> divides by zero.
\<close>

theorem skip_step_guard_counterexample:
  "init (Table []) 0 0 1 1 0 None False =
     Inr \<lparr>x_sequences = Table [], explicit_seq_len = 0, no_slurp = False, max_seq_len = 0,
          min_seq_len = 0, num_shifted_sentences = 1, current_idx = 0, skip_step = 0,
          pad_idx_or_symbol = 1\<rparr> \<and>
   get_num_sliding_windows
     \<lparr>x_sequences = Table [], explicit_seq_len = 0, no_slurp = False, max_seq_len = 0,
      min_seq_len = 0, num_shifted_sentences = 1, current_idx = 0, skip_step = 0,
      pad_idx_or_symbol = 1\<rparr> = Inl ZeroDivisionError"
  by (simp add: init_def get_num_sliding_windows_def py_floordiv_def)

text \<open>
  C4, amended. Construction with \<open>skip_step > max_seq_len\<close> raises the configuration
  error (\<^verbatim>\<open>ValueError\<close>) whatever the source and the strategy flag are; construction
  with \<open>skip_step = max_seq_len\<close> succeeds, and the number of sliding windows is
  \<open>1\<close> unless both are zero, when \<^verbatim>\<open>get_num_sliding_windows\<close> raises
  \<^verbatim>\<open>ZeroDivisionError\<close>.
\<close>

theorem skip_step_guard:
  "(maxlen < skip \<longrightarrow>
      init xs maxlen minlen shifted pad skip explicit noslurp = Inl ValueError) \<and>
   (skip = maxlen \<longrightarrow>
      (\<exists>g. init xs maxlen minlen shifted pad skip explicit noslurp = Inr g \<and>
           get_num_sliding_windows g =
             (if maxlen = 0 then Inl ZeroDivisionError else Inr 1)))"
  by (simp add: init_def get_num_sliding_windows_def py_floordiv_def)

theorem skip_step_guard_witness:
  "init (Table [[2, 5, 3]]) 3 1 1 1 4 None False = Inl ValueError \<and>
   init (CorpusPath ''ids.txt'') 3 1 1 1 4 (Some 1) True = Inl ValueError \<and>
   (\<exists>g. init (Table [[2, 5, 3]]) 3 1 1 1 3 None False = Inr g \<and>
        get_num_sliding_windows g = Inr 1)"
  using skip_step_guard [of 3 4 "Table [[2, 5, 3]]" 1 1 1 None False]
    skip_step_guard [of 3 4 "CorpusPath ''ids.txt''" 1 1 1 "Some 1" True]
    skip_step_guard [of 3 3 "Table [[2, 5, 3]]" 1 1 1 None False]
  by simp

subsection \<open>One turn of the in-memory loop\<close>

lemma repad_max_seq_len:
  "max_seq_len g = max_seq_len g' \<Longrightarrow> repad g xy = repad g' xy"
  by (simp add: repad_def cong: sum.case_cong)

lemma wrap_cursor_fields [simp]:
  "x_sequences (wrap_cursor g) = x_sequences g"
  "explicit_seq_len (wrap_cursor g) = explicit_seq_len g"
  "max_seq_len (wrap_cursor g) = max_seq_len g"
  "min_seq_len (wrap_cursor g) = min_seq_len g"
  "num_shifted_sentences (wrap_cursor g) = num_shifted_sentences g"
  "skip_step (wrap_cursor g) = skip_step g"
  "pad_idx_or_symbol (wrap_cursor g) = pad_idx_or_symbol g"
  by (simp_all add: wrap_cursor_def)

lemma wrap_cursor_update:
  "wrap_cursor g = g\<lparr>current_idx := current_idx (wrap_cursor g)\<rparr>"
  by (simp add: wrap_cursor_def)

lemma slurped_iteration_Table:
  assumes "x_sequences g = Table rows"
  shows "slurped_iteration nsw g =
     (case repad g (shift_windows nsw (skip_step g) (slurped_block (wrap_cursor g) rows)) of
        Inl e \<Rightarrow> Inl e
      | Inr b \<Rightarrow> Inr (b, g\<lparr>current_idx :=
                               current_idx (wrap_cursor g) + num_shifted_sentences g\<rparr>))"
proof -
  have "repad ((wrap_cursor g)\<lparr>current_idx := c\<rparr>) xy = repad g xy" for c xy
    by (rule repad_max_seq_len) simp
  moreover have "(wrap_cursor g)\<lparr>current_idx := c\<rparr> = g\<lparr>current_idx := c\<rparr>" for c
    by (simp add: wrap_cursor_def)
  ultimately show ?thesis using assms
    by (simp add: slurped_iteration_def Let_def split: sum.splits)
qed

lemma slurped_iteration_cursor:
  assumes "slurped_iteration nsw g = Inr (b, g')"
  shows "g' = g\<lparr>current_idx := current_idx (wrap_cursor g) + num_shifted_sentences g\<rparr>"
proof -
  have "(wrap_cursor g)\<lparr>current_idx := c\<rparr> = g\<lparr>current_idx := c\<rparr>" for c
    by (simp add: wrap_cursor_def)
  with assms show ?thesis
    by (auto simp: slurped_iteration_def Let_def split: source.splits sum.splits if_splits)
qed

lemma pad_row_post_pre_pos:
  assumes "0 < m"
  shows "pad_row Post Pre m v s =
         Inr (drop (length s - nat m) s @ replicate (nat m - length s) v)"
proof (cases "s = []")
  case True
  then show ?thesis by (simp add: pad_row_def)
next
  case False
  from assms have "slice_from (- m) s = drop (length s - nat m) s"
    by (simp add: slice_from_def clip_index_def nat_diff_distrib')
  moreover have "nat m - (length s - (length s - nat m)) = nat m - length s"
    by arith
  moreover have "\<not> m < int (length s) - int (length s - nat m)"
    using assms by arith
  ultimately show ?thesis using False
    by (simp add: pad_row_def Let_def)
qed

lemma pad_sequences_post_pre_pos:
  assumes "0 < m"
  shows "pad_sequences Post Pre m v seqs =
         Inr (map (\<lambda>s. drop (length s - nat m) s @ replicate (nat m - length s) v) seqs)"
  using assms by (simp add: pad_sequences_def collect_map_Inr pad_row_post_pre_pos)

lemma repad_shape:
  assumes "repad g (xr, yr) = Inr (x, y)"
  shows "length x = length xr" and "length y = length yr"
    and "\<And>r. r \<in> set x \<union> set y \<Longrightarrow> int (length r) = max_seq_len g"
proof -
  from assms obtain
    x: "pad_sequences Post Pre (max_seq_len g) 1 xr = Inr x" and
    y: "pad_sequences Post Pre (max_seq_len g) 1 yr = Inr y"
    by (auto simp: repad_def split: sum.splits)
  from x show "length x = length xr" by (rule pad_sequences_shape)
  from y show "length y = length yr" by (rule pad_sequences_shape)
  fix r assume "r \<in> set x \<union> set y"
  with pad_sequences_shape(3) [OF x] pad_sequences_shape(3) [OF y]
  have "length r = nat (max_seq_len g)" by auto
  moreover from x have "0 \<le> max_seq_len g" by (rule pad_sequences_shape)
  ultimately show "int (length r) = max_seq_len g" by simp
qed

lemma repad_total:
  assumes "0 < max_seq_len g"
  shows "\<exists>x y. repad g xy = Inr (x, y)"
  using assms by (simp add: repad_def pad_sequences_post_pre_pos)

lemma length_slice:
  assumes "0 \<le> a" and "0 \<le> n" and "a + n \<le> int (length xs)"
  shows "slice a (a + n) xs = take (nat n) (drop (nat a) xs)"
proof -
  from assms have "clip_index (length xs) a = nat a"
    and "clip_index (length xs) (a + n) = nat a + nat n"
    by (auto simp: clip_index_def min_def nat_add_distrib)
  then show ?thesis by (simp add: slice_def)
qed

lemma slurped_block_full:
  assumes "0 \<le> current_idx g" and "0 \<le> num_shifted_sentences g"
    and "num_shifted_sentences g \<le> int (length rows)"
    and "explicit_seq_len g \<le> int (length rows)"
  shows "length (slurped_block (wrap_cursor g) rows) = nat (num_shifted_sentences g)"
proof -
  have "0 \<le> current_idx (wrap_cursor g)"
    and "current_idx (wrap_cursor g) + num_shifted_sentences g \<le> int (length rows)"
    using assms by (auto simp: wrap_cursor_def)
  with assms(2) show ?thesis
    by (simp add: slurped_block_def length_slice)
qed

subsection \<open>Runs of the in-memory loop\<close>

lemma slurped_run_cursor_only:
  "slurped_run nsw g k = Inr (bs, g') \<Longrightarrow> \<exists>c. g' = g\<lparr>current_idx := c\<rparr>"
proof (induction k arbitrary: g bs)
  case 0
  then have "g' = g\<lparr>current_idx := current_idx g\<rparr>" by simp
  then show ?case ..
next
  case (Suc k)
  from Suc.prems obtain b g1 bs1 where
    it: "slurped_iteration nsw g = Inr (b, g1)" and run: "slurped_run nsw g1 k = Inr (bs1, g')"
    by (auto split: sum.splits)
  from Suc.IH [OF run] obtain c where "g' = g1\<lparr>current_idx := c\<rparr>" ..
  with slurped_iteration_cursor [OF it] have "g' = g\<lparr>current_idx := c\<rparr>" by simp
  then show ?case ..
qed

lemma slurped_run_cursor_in_range:
  assumes "0 \<le> num_shifted_sentences g"
    and "num_shifted_sentences g < explicit_seq_len g"
    and "0 \<le> current_idx g" and "current_idx g < explicit_seq_len g"
    and "slurped_run nsw g k = Inr (bs, g')"
  shows "0 \<le> current_idx g' \<and> current_idx g' < explicit_seq_len g"
  using assms
proof (induction k arbitrary: g bs)
  case 0
  then show ?case by simp
next
  case (Suc k)
  from Suc.prems(5) obtain b g1 bs1 where
    it: "slurped_iteration nsw g = Inr (b, g1)" and run: "slurped_run nsw g1 k = Inr (bs1, g')"
    by (auto split: sum.splits)
  note g1 = slurped_iteration_cursor [OF it]
  have "0 \<le> current_idx g1 \<and> current_idx g1 < explicit_seq_len g"
    using Suc.prems(1-4) by (auto simp: g1 wrap_cursor_def)
  with Suc.IH [OF _ _ _ _ run] Suc.prems(1,2) show ?case
    by (simp add: g1)
qed

lemma slurped_run_cursor_value:
  assumes "0 < num_shifted_sentences g"
    and "current_idx g = int i * num_shifted_sentences g"
    and "int i * num_shifted_sentences g < explicit_seq_len g"
    and "int (i + j) * num_shifted_sentences g < explicit_seq_len g + num_shifted_sentences g"
    and "slurped_run nsw g j = Inr (bs, g')"
  shows "current_idx g' =
           (if int (i + j) * num_shifted_sentences g < explicit_seq_len g
            then int (i + j) * num_shifted_sentences g
            else num_shifted_sentences g)"
  using assms
proof (induction j arbitrary: g i bs)
  case 0
  then show ?case by simp
next
  case (Suc j)
  let ?n = "num_shifted_sentences g"
  from Suc.prems(5) obtain b g1 bs1 where
    it: "slurped_iteration nsw g = Inr (b, g1)" and run: "slurped_run nsw g1 j = Inr (bs1, g')"
    by (auto split: sum.splits)
  note g1 = slurped_iteration_cursor [OF it]
  show ?case
  proof (cases "int (Suc i) * ?n < explicit_seq_len g")
    case True
    with Suc.prems(2) have c1: "current_idx g1 = int (Suc i) * num_shifted_sentences g1"
      by (simp add: g1 wrap_cursor_def algebra_simps)
    have "current_idx g' =
           (if int (Suc i + j) * num_shifted_sentences g1 < explicit_seq_len g1
            then int (Suc i + j) * num_shifted_sentences g1
            else num_shifted_sentences g1)"
    proof (rule Suc.IH [OF _ c1 _ _ run])
      show "0 < num_shifted_sentences g1" using Suc.prems(1) by (simp add: g1)
      show "int (Suc i) * num_shifted_sentences g1 < explicit_seq_len g1"
        using True by (simp add: g1)
      show "int (Suc i + j) * num_shifted_sentences g1
              < explicit_seq_len g1 + num_shifted_sentences g1"
        using Suc.prems(4) by (simp add: g1)
    qed
    then show ?thesis by (simp add: g1)
  next
    case False
    have "j = 0"
    proof (rule ccontr)
      assume "j \<noteq> 0"
      then have "int (Suc i) * ?n + ?n \<le> int (i + Suc j) * ?n"
        using Suc.prems(1) by (cases j) (simp_all add: algebra_simps)
      with False Suc.prems(4) show False by simp
    qed
    with run have "g' = g1" by simp
    moreover from False Suc.prems(2) have "current_idx g1 = ?n"
      by (simp add: g1 wrap_cursor_def algebra_simps)
    ultimately show ?thesis using False \<open>j = 0\<close> by simp
  qed
qed

lemma slurped_iteration_full_batch:
  assumes "x_sequences g = Table rows" and "0 < skip_step g" and "skip_step g \<le> max_seq_len g"
    and "0 \<le> num_shifted_sentences g"
    and "num_shifted_sentences g \<le> int (length rows)"
    and "explicit_seq_len g \<le> int (length rows)"
    and "0 \<le> current_idx g" and "0 \<le> nsw"
  shows "\<exists>x y. slurped_iteration nsw g =
            Inr ((x, y), g\<lparr>current_idx :=
                              current_idx (wrap_cursor g) + num_shifted_sentences g\<rparr>) \<and>
          int (length x) = num_shifted_sentences g * nsw \<and> length y = length x \<and>
          (\<forall>r \<in> set x \<union> set y. int (length r) = max_seq_len g)"
proof -
  let ?w = "shift_windows nsw (skip_step g) (slurped_block (wrap_cursor g) rows)"
  from assms(2,3) have "0 < max_seq_len g" by simp
  then obtain x y where r: "repad g (fst ?w, snd ?w) = Inr (x, y)"
    using repad_total by blast
  have "length (fst ?w) = nat nsw * nat (num_shifted_sentences g)"
    using assms by (simp add: shift_windows_rows slurped_block_full)
  with repad_shape [OF r] assms(4,8)
  have "int (length x) = num_shifted_sentences g * nsw" "length y = length x"
    "\<forall>r \<in> set x \<union> set y. int (length r) = max_seq_len g"
    by (simp_all add: shift_windows_snd)
  with r assms(1) show ?thesis
    by (simp add: slurped_iteration_Table)
qed

lemma slurped_run_full_batches:
  assumes "x_sequences g = Table rows" and "0 < skip_step g" and "skip_step g \<le> max_seq_len g"
    and "0 \<le> num_shifted_sentences g"
    and "num_shifted_sentences g \<le> int (length rows)"
    and "explicit_seq_len g \<le> int (length rows)"
    and "0 \<le> current_idx g" and "0 \<le> nsw"
  shows "\<exists>bs g'. slurped_run nsw g k = Inr (bs, g') \<and> length bs = k \<and>
          (\<forall>(x, y) \<in> set bs.
             int (length x) = num_shifted_sentences g * nsw \<and> length y = length x \<and>
             (\<forall>r \<in> set x \<union> set y. int (length r) = max_seq_len g))"
  using assms
proof (induction k arbitrary: g)
  case 0
  then show ?case by simp
next
  case (Suc k)
  let ?g1 = "g\<lparr>current_idx := current_idx (wrap_cursor g) + num_shifted_sentences g\<rparr>"
  from slurped_iteration_full_batch [OF Suc.prems] obtain x y where
    it: "slurped_iteration nsw g = Inr ((x, y), ?g1)" and
    shape: "int (length x) = num_shifted_sentences g * nsw" "length y = length x"
      "\<forall>r \<in> set x \<union> set y. int (length r) = max_seq_len g"
    by blast
  have "0 \<le> current_idx (wrap_cursor g)" using Suc.prems(7) by (simp add: wrap_cursor_def)
  with Suc.prems have "\<exists>bs g'. slurped_run nsw ?g1 k = Inr (bs, g') \<and> length bs = k \<and>
          (\<forall>(x, y) \<in> set bs.
             int (length x) = num_shifted_sentences ?g1 * nsw \<and> length y = length x \<and>
             (\<forall>r \<in> set x \<union> set y. int (length r) = max_seq_len ?g1))"
    by (intro Suc.IH) simp_all
  then obtain bs g' where run: "slurped_run nsw ?g1 k = Inr (bs, g')" and "length bs = k"
    and rest: "\<forall>(x, y) \<in> set bs.
             int (length x) = num_shifted_sentences g * nsw \<and> length y = length x \<and>
             (\<forall>r \<in> set x \<union> set y. int (length r) = max_seq_len g)"
    by auto
  with it shape show ?case by simp
qed

subsection \<open>The cursor\<close>

lemma init_fields:
  assumes "init xs maxlen minlen shifted pad skip explicit noslurp = Inr g"
  shows "x_sequences g = xs" and "max_seq_len g = maxlen" and "min_seq_len g = minlen"
    and "num_shifted_sentences g = shifted" and "pad_idx_or_symbol g = pad"
    and "skip_step g = skip" and "current_idx g = 0" and "skip \<le> maxlen"
    and "explicit = None \<Longrightarrow> explicit_seq_len g = len_source xs"
  using assms by (auto simp: init_def split: if_splits)

lemma generate_slurped_run:
  assumes "generate_slurped g k = Inr (bs, g')"
  shows "\<exists>nsw. slurped_run nsw g k = Inr (bs, g')"
proof (cases "k = 0")
  case True
  with assms have "slurped_run 0 g k = Inr (bs, g')" by (simp add: generate_slurped_def)
  then show ?thesis ..
next
  case False
  with assms show ?thesis
    by (auto simp: generate_slurped_def split: sum.splits)
qed

text \<open>
  C6, as stated, fails when the table holds no more sequences than one block: with two
  sequences and \<open>num_shifted_sentences = 2\<close> the cursor is \<open>2\<close> after the first
  batch, outside \<open>[0, explicit_seq_len) = [0, 2)\<close>.
\<close>

theorem cursor_range_counterexample:
  "init (Table [[2, 7, 3], [2, 9, 3]]) 3 2 2 1 3 None False =
     Inr \<lparr>x_sequences = Table [[2, 7, 3], [2, 9, 3]], explicit_seq_len = 2, no_slurp = False,
          max_seq_len = 3, min_seq_len = 2, num_shifted_sentences = 2, current_idx = 0,
          skip_step = 3, pad_idx_or_symbol = 1\<rparr> \<and>
   generate_slurped
     \<lparr>x_sequences = Table [[2, 7, 3], [2, 9, 3]], explicit_seq_len = 2, no_slurp = False,
      max_seq_len = 3, min_seq_len = 2, num_shifted_sentences = 2, current_idx = 0,
      skip_step = 3, pad_idx_or_symbol = 1\<rparr> 1 =
     Inr ([([[2, 7, 3], [2, 9, 3]], [[7, 3, 1], [9, 3, 1]])],
          \<lparr>x_sequences = Table [[2, 7, 3], [2, 9, 3]], explicit_seq_len = 2, no_slurp = False,
           max_seq_len = 3, min_seq_len = 2, num_shifted_sentences = 2, current_idx = 2,
           skip_step = 3, pad_idx_or_symbol = 1\<rparr>)"
  by code_simp

text \<open>
  C6, amended. In the in-memory strategy, when
  \<open>0 \<le> num_shifted_sentences < explicit_seq_len\<close>, the cursor lies in
  \<open>[0, explicit_seq_len)\<close> in every state reached from construction by producing
  batches.
\<close>

theorem cursor_range:
  assumes "init xs maxlen minlen shifted pad skip explicit noslurp = Inr g"
    and "0 \<le> shifted" and "shifted < explicit_seq_len g"
    and "generate_slurped g k = Inr (bs, g')"
  shows "0 \<le> current_idx g' \<and> current_idx g' < explicit_seq_len g' \<and>
         explicit_seq_len g' = explicit_seq_len g"
proof -
  from generate_slurped_run [OF assms(4)] obtain nsw where
    run: "slurped_run nsw g k = Inr (bs, g')" ..
  from slurped_run_cursor_only [OF run] have e: "explicit_seq_len g' = explicit_seq_len g"
    by auto
  have "0 \<le> current_idx g' \<and> current_idx g' < explicit_seq_len g"
    using assms(2,3) init_fields(4,7) [OF assms(1)]
    by (intro slurped_run_cursor_in_range [OF _ _ _ _ run]) simp_all
  with e show ?thesis by simp
qed

theorem cursor_range_witness:
  "init (Table [[2, 3], [4, 3], [5, 3]]) 2 1 1 1 2 None False =
     Inr \<lparr>x_sequences = Table [[2, 3], [4, 3], [5, 3]], explicit_seq_len = 3,
          no_slurp = False, max_seq_len = 2, min_seq_len = 1, num_shifted_sentences = 1,
          current_idx = 0, skip_step = 2, pad_idx_or_symbol = 1\<rparr> \<and>
   generate_slurped
     \<lparr>x_sequences = Table [[2, 3], [4, 3], [5, 3]], explicit_seq_len = 3,
      no_slurp = False, max_seq_len = 2, min_seq_len = 1, num_shifted_sentences = 1,
      current_idx = 0, skip_step = 2, pad_idx_or_symbol = 1\<rparr> 3 =
     Inr ([([[2, 3]], [[3, 1]]), ([[4, 3]], [[3, 1]]), ([[2, 3]], [[3, 1]])],
          \<lparr>x_sequences = Table [[2, 3], [4, 3], [5, 3]], explicit_seq_len = 3,
           no_slurp = False, max_seq_len = 2, min_seq_len = 1, num_shifted_sentences = 1,
           current_idx = 1, skip_step = 2, pad_idx_or_symbol = 1\<rparr>) \<and>
   0 \<le> current_idx
     \<lparr>x_sequences = Table [[2, 3], [4, 3], [5, 3]], explicit_seq_len = 3,
      no_slurp = False, max_seq_len = 2, min_seq_len = 1, num_shifted_sentences = 1,
      current_idx = 1, skip_step = 2, pad_idx_or_symbol = 1\<rparr> \<and>
   current_idx
     \<lparr>x_sequences = Table [[2, 3], [4, 3], [5, 3]], explicit_seq_len = 3,
      no_slurp = False, max_seq_len = 2, min_seq_len = 1, num_shifted_sentences = 1,
      current_idx = 1, skip_step = 2, pad_idx_or_symbol = 1\<rparr>
   < explicit_seq_len
     \<lparr>x_sequences = Table [[2, 3], [4, 3], [5, 3]], explicit_seq_len = 3,
      no_slurp = False, max_seq_len = 2, min_seq_len = 1, num_shifted_sentences = 1,
      current_idx = 1, skip_step = 2, pad_idx_or_symbol = 1\<rparr>"
proof -
  let ?g = "\<lparr>x_sequences = Table [[2, 3], [4, 3], [5, 3]], explicit_seq_len = 3,
      no_slurp = False, max_seq_len = 2, min_seq_len = 1, num_shifted_sentences = 1,
      current_idx = 0, skip_step = 2, pad_idx_or_symbol = 1\<rparr>"
  have i: "init (Table [[2, 3], [4, 3], [5, 3]]) 2 1 1 1 2 None False = Inr ?g"
    by (simp add: init_def)
  have r: "generate_slurped ?g 3 =
     Inr ([([[2, 3]], [[3, 1]]), ([[4, 3]], [[3, 1]]), ([[2, 3]], [[3, 1]])],
          ?g\<lparr>current_idx := 1\<rparr>)"
    by code_simp
  have "(1::int) < explicit_seq_len ?g" by simp
  from cursor_range [OF i _ this r] i r show ?thesis by simp
qed

lemma int_le_div_iff:
  fixes j b n :: int
  assumes "0 < n"
  shows "j \<le> b div n \<longleftrightarrow> j * n \<le> b"
proof
  assume "j \<le> b div n"
  then have "j * n \<le> (b div n) * n" using assms by (simp add: mult_right_mono)
  also have "\<dots> \<le> b"
  proof -
    have "b = n * (b div n) + b mod n" by simp
    moreover have "0 \<le> b mod n" using assms by simp
    ultimately have "n * (b div n) \<le> b" by linarith
    then show ?thesis by (simp add: mult.commute)
  qed
  finally show "j * n \<le> b" .
next
  assume le: "j * n \<le> b"
  have "b = n * (b div n) + b mod n" by simp
  moreover have "b mod n < n" using assms by simp
  ultimately have "b < n * (b div n) + n" by linarith
  then have "b < (b div n + 1) * n" by (simp add: algebra_simps)
  with le have "j * n < (b div n + 1) * n" by simp
  with assms have "j < b div n + 1" by (simp add: mult_less_cancel_right)
  then show "j \<le> b div n" by simp
qed

lemma ceil_div_bounds:
  fixes j e n :: int
  assumes "0 < n"
  shows "j < (e + n - 1) div n \<longleftrightarrow> j * n < e"
    and "j \<le> (e + n - 1) div n \<longleftrightarrow> j * n < e + n"
  using int_le_div_iff [OF assms, of "j + 1" "e + n - 1"]
    int_le_div_iff [OF assms, of j "e + n - 1"]
  by (auto simp: algebra_simps)


text \<open>
  C7, as stated, fails: the cursor is reset to zero at the start of a turn of the loop and
  advanced before the batch is yielded, so it is never zero after a batch. With four
  sequences and \<open>num_shifted_sentences = 2\<close> the cursor after
  \<open>ceil(4 / 2) = 2\<close> batches is \<open>2\<close>; the second batch repeats the first, and the
  sequences of rows 2 and 3 are not emitted.
\<close>

theorem wrap_after_ceil_counterexample:
  "init (Table [[2, 3], [4, 3], [5, 3], [6, 3]]) 2 1 2 1 2 None False =
     Inr \<lparr>x_sequences = Table [[2, 3], [4, 3], [5, 3], [6, 3]], explicit_seq_len = 4,
          no_slurp = False, max_seq_len = 2, min_seq_len = 1, num_shifted_sentences = 2,
          current_idx = 0, skip_step = 2, pad_idx_or_symbol = 1\<rparr> \<and>
   generate_slurped
     \<lparr>x_sequences = Table [[2, 3], [4, 3], [5, 3], [6, 3]], explicit_seq_len = 4,
      no_slurp = False, max_seq_len = 2, min_seq_len = 1, num_shifted_sentences = 2,
      current_idx = 0, skip_step = 2, pad_idx_or_symbol = 1\<rparr> 2 =
     Inr ([([[2, 3], [4, 3]], [[3, 1], [3, 1]]), ([[2, 3], [4, 3]], [[3, 1], [3, 1]])],
          \<lparr>x_sequences = Table [[2, 3], [4, 3], [5, 3], [6, 3]], explicit_seq_len = 4,
           no_slurp = False, max_seq_len = 2, min_seq_len = 1, num_shifted_sentences = 2,
           current_idx = 2, skip_step = 2, pad_idx_or_symbol = 1\<rparr>)"
  by code_simp

text \<open>
  C7, amended. In the in-memory strategy with positive \<open>num_shifted_sentences\<close> and
  \<open>explicit_seq_len\<close>, starting from a freshly constructed generator, the cursor after
  \<open>j\<close> batches is \<open>j * num_shifted_sentences\<close> for every
  \<open>j < ceil(explicit_seq_len / num_shifted_sentences)\<close>, and after exactly
  \<open>ceil(explicit_seq_len / num_shifted_sentences)\<close> batches it is
  \<open>num_shifted_sentences\<close>: that batch is the first whose turn resets the cursor to
  zero, and the turn advances it again before it yields.
\<close>

theorem wrap_after_ceil:
  assumes "init xs maxlen minlen shifted pad skip explicit noslurp = Inr g"
    and "0 < shifted" and "0 < explicit_seq_len g"
    and "int j \<le> (explicit_seq_len g + shifted - 1) div shifted"
    and "generate_slurped g j = Inr (bs, g')"
  shows "current_idx g' =
           (if int j < (explicit_seq_len g + shifted - 1) div shifted
            then int j * shifted else shifted)"
proof -
  from generate_slurped_run [OF assms(5)] obtain nsw where
    run: "slurped_run nsw g j = Inr (bs, g')" ..
  note f = init_fields(4,7) [OF assms(1)]
  have "current_idx g' =
           (if int (0 + j) * num_shifted_sentences g < explicit_seq_len g
            then int (0 + j) * num_shifted_sentences g
            else num_shifted_sentences g)"
    using assms(2-4) f
    by (intro slurped_run_cursor_value [OF _ _ _ _ run]) (simp_all add: ceil_div_bounds)
  with assms(2) show ?thesis by (simp add: f ceil_div_bounds)
qed

theorem wrap_after_ceil_witness:
  "init (Table [[2, 3], [4, 3], [5, 3]]) 2 1 1 1 2 None False =
     Inr \<lparr>x_sequences = Table [[2, 3], [4, 3], [5, 3]], explicit_seq_len = 3,
          no_slurp = False, max_seq_len = 2, min_seq_len = 1, num_shifted_sentences = 1,
          current_idx = 0, skip_step = 2, pad_idx_or_symbol = 1\<rparr> \<and>
   int 3 \<le> (3 + 1 - 1) div 1 \<and>
   generate_slurped
     \<lparr>x_sequences = Table [[2, 3], [4, 3], [5, 3]], explicit_seq_len = 3,
      no_slurp = False, max_seq_len = 2, min_seq_len = 1, num_shifted_sentences = 1,
      current_idx = 0, skip_step = 2, pad_idx_or_symbol = 1\<rparr> 3 =
     Inr ([([[2, 3]], [[3, 1]]), ([[4, 3]], [[3, 1]]), ([[2, 3]], [[3, 1]])],
          \<lparr>x_sequences = Table [[2, 3], [4, 3], [5, 3]], explicit_seq_len = 3,
           no_slurp = False, max_seq_len = 2, min_seq_len = 1, num_shifted_sentences = 1,
           current_idx = 1, skip_step = 2, pad_idx_or_symbol = 1\<rparr>) \<and>
   current_idx
     \<lparr>x_sequences = Table [[2, 3], [4, 3], [5, 3]], explicit_seq_len = 3,
      no_slurp = False, max_seq_len = 2, min_seq_len = 1, num_shifted_sentences = 1,
      current_idx = 1, skip_step = 2, pad_idx_or_symbol = 1\<rparr> = 1"
proof -
  let ?g = "\<lparr>x_sequences = Table [[2, 3], [4, 3], [5, 3]], explicit_seq_len = 3,
      no_slurp = False, max_seq_len = 2, min_seq_len = 1, num_shifted_sentences = 1,
      current_idx = 0, skip_step = 2, pad_idx_or_symbol = 1\<rparr>"
  have i: "init (Table [[2, 3], [4, 3], [5, 3]]) 2 1 1 1 2 None False = Inr ?g"
    by (simp add: init_def)
  have r: "generate_slurped ?g 3 =
     Inr ([([[2, 3]], [[3, 1]]), ([[4, 3]], [[3, 1]]), ([[2, 3]], [[3, 1]])],
          ?g\<lparr>current_idx := 1\<rparr>)"
    by code_simp
  have "(0::int) < 1" "0 < explicit_seq_len ?g"
    "int 3 \<le> (explicit_seq_len ?g + 1 - 1) div 1" by simp_all
  from wrap_after_ceil [OF i this r] i r show ?thesis by simp
qed

subsection \<open>Reading the corpus file\<close>

lemma tell_le_getsize: "tell f pos \<le> getsize f"
proof -
  have "concat f = concat (take pos f) @ concat (drop pos f)"
    by (metis append_take_drop_id concat_append)
  then show ?thesis by (simp add: tell_def getsize_def)
qed

lemma seek_is_dead: "(if tell f pos > getsize f then 0 else pos) = pos"
  using tell_le_getsize [of f pos] by simp

lemma genfromtxt_empty: "genfromtxt [] = Vector []"
  by (simp add: genfromtxt_def)

lemma read_block_at_eof:
  assumes "length f \<le> pos" and "0 < min_seq_len g"
  shows "read_block g f fuel pos acc cnt = None"
  using assms
  by (induction fuel) (simp_all add: seek_is_dead readline_def genfromtxt_empty)

lemma read_block_rows:
  assumes "read_block g f fuel pos acc cnt = Some (Inr (block, pos'))"
    and "int (length acc) = cnt" and "cnt < num_shifted_sentences g"
  shows "int (length block) = num_shifted_sentences g"
  using assms
proof (induction fuel arbitrary: pos acc cnt)
  case 0
  then show ?case by simp
next
  case (Suc fuel)
  obtain ln pos2 where rl: "readline f pos = (ln, pos2)" by (cases "readline f pos")
  from Suc.prems(1) obtain line where v: "genfromtxt ln = Vector line"
    by (cases "genfromtxt ln") (simp_all add: seek_is_dead rl)
  show ?case
  proof (cases "int (length line) < min_seq_len g")
    case True
    with Suc.prems(1) have "read_block g f fuel pos2 acc cnt = Some (Inr (block, pos'))"
      by (simp add: seek_is_dead rl v)
    from Suc.IH [OF this Suc.prems(2,3)] show ?thesis .
  next
    case False
    let ?r = "if int (length line) > max_seq_len g
              then setitem line (max_seq_len g - 1) 3 else Inr line"
    from Suc.prems(1) False obtain line' where ok: "?r = Inr line'"
      by (cases ?r) (simp_all add: seek_is_dead rl v)
    show ?thesis
    proof (cases "cnt + 1 \<ge> num_shifted_sentences g")
      case True
      with Suc.prems(1) False ok have "block = acc @ [line']"
        by (simp add: seek_is_dead rl v)
      with True Suc.prems(2,3) show ?thesis by simp
    next
      case more: False
      with Suc.prems(1) False ok
      have "read_block g f fuel pos2 (acc @ [line']) (cnt + 1) = Some (Inr (block, pos'))"
        by (simp add: seek_is_dead rl v)
      moreover have "int (length (acc @ [line'])) = cnt + 1"
        using Suc.prems(2) by simp
      moreover have "cnt + 1 < num_shifted_sentences g"
        using more by simp
      ultimately show ?thesis by (rule Suc.IH)
    qed
  qed
qed

lemma disk_iteration_parts:
  assumes "disk_iteration fuel nsw g f pos = Some (Inr ((x, y), pos'))"
  obtains block padded where
    "read_block g f fuel pos [] 0 = Some (Inr (block, pos'))"
    "pad_sequences Post Post (max_seq_len g) (pad_idx_or_symbol g) block = Inr padded"
    "repad g (shift_windows nsw (skip_step g) padded) = Inr (x, y)"
  using assms
  by (auto simp: disk_iteration_def split: option.splits sum.splits prod.splits)

lemma disk_iteration_shape:
  assumes "disk_iteration fuel nsw g f pos = Some (Inr ((x, y), pos'))"
    and "0 < num_shifted_sentences g" and "0 \<le> nsw"
  shows "int (length x) = num_shifted_sentences g * nsw \<and> length y = length x \<and>
         (\<forall>r \<in> set x \<union> set y. int (length r) = max_seq_len g)"
proof -
  from assms(1) obtain block padded where
    rb: "read_block g f fuel pos [] 0 = Some (Inr (block, pos'))" and
    pd: "pad_sequences Post Post (max_seq_len g) (pad_idx_or_symbol g) block = Inr padded" and
    rp: "repad g (shift_windows nsw (skip_step g) padded) = Inr (x, y)"
    by (rule disk_iteration_parts)
  let ?w = "shift_windows nsw (skip_step g) padded"
  from rp have rp': "repad g (fst ?w, snd ?w) = Inr (x, y)" by simp
  from read_block_rows [OF rb] assms(2) have "int (length block) = num_shifted_sentences g"
    by simp
  with pad_sequences_shape(2) [OF pd]
  have "int (length padded) = num_shifted_sentences g" by simp
  then have "int (length (fst ?w)) = num_shifted_sentences g * nsw"
    using assms(3) by (simp add: shift_windows_rows)
  with repad_shape [OF rp'] show ?thesis
    by (simp add: shift_windows_snd)
qed

lemma disk_run_shape:
  assumes "disk_run fuel nsw g f pos k = Some (Inr (bs, pos'))"
    and "0 < num_shifted_sentences g" and "0 \<le> nsw"
  shows "length bs = k \<and>
         (\<forall>(x, y) \<in> set bs.
            int (length x) = num_shifted_sentences g * nsw \<and> length y = length x \<and>
            (\<forall>r \<in> set x \<union> set y. int (length r) = max_seq_len g))"
  using assms(1)
proof (induction k arbitrary: pos bs)
  case 0
  then show ?case by simp
next
  case (Suc k)
  from Suc.prems obtain b pos1 bs1 where
    it: "disk_iteration fuel nsw g f pos = Some (Inr (b, pos1))" and
    run: "disk_run fuel nsw g f pos1 k = Some (Inr (bs1, pos'))" and bs: "bs = b # bs1"
    by (auto split: option.splits sum.splits)
  obtain x y where b: "b = (x, y)" by (cases b)
  from disk_iteration_shape [OF it [unfolded b] assms(2,3)] Suc.IH [OF run] bs b
  show ?case by simp
qed

subsection \<open>Shape of the batches\<close>

lemma windows_nonneg:
  assumes "0 < skip" and "skip \<le> maxlen"
  shows "py_floordiv maxlen skip = Inr (maxlen div skip)" and "0 \<le> maxlen div skip"
  using assms by (simp_all add: py_floordiv_def pos_imp_zdiv_nonneg_iff)

text \<open>
  C3. In the in-memory strategy the block is the slice
  \<^verbatim>\<open>x_sequences[current_idx : current_idx + num_shifted_sentences]\<close>, which numpy cuts
  at the end of the table. On a table of one sequence, with
  \<open>num_shifted_sentences = 2\<close> and one window, \<^verbatim>\<open>get_batch_size\<close> is \<open>2\<close>, the
  number of rows that the comments and the printed summary of the generator announce for
  each batch, and the batch emitted has one row.
\<close>

theorem short_table_short_batch:
  "init (Table [[2, 7, 3]]) 3 2 2 1 3 None False =
     Inr \<lparr>x_sequences = Table [[2, 7, 3]], explicit_seq_len = 1, no_slurp = False,
          max_seq_len = 3, min_seq_len = 2, num_shifted_sentences = 2, current_idx = 0,
          skip_step = 3, pad_idx_or_symbol = 1\<rparr> \<and>
   get_batch_size
     \<lparr>x_sequences = Table [[2, 7, 3]], explicit_seq_len = 1, no_slurp = False,
      max_seq_len = 3, min_seq_len = 2, num_shifted_sentences = 2, current_idx = 0,
      skip_step = 3, pad_idx_or_symbol = 1\<rparr> = Inr 2 \<and>
   generate_slurped
     \<lparr>x_sequences = Table [[2, 7, 3]], explicit_seq_len = 1, no_slurp = False,
      max_seq_len = 3, min_seq_len = 2, num_shifted_sentences = 2, current_idx = 0,
      skip_step = 3, pad_idx_or_symbol = 1\<rparr> 1 =
     Inr ([([[2, 7, 3]], [[7, 3, 1]])],
          \<lparr>x_sequences = Table [[2, 7, 3]], explicit_seq_len = 1, no_slurp = False,
           max_seq_len = 3, min_seq_len = 2, num_shifted_sentences = 2, current_idx = 2,
           skip_step = 3, pad_idx_or_symbol = 1\<rparr>)"
  by code_simp

text \<open>
  On a table that holds a whole block the shape is the announced one. With a positive
  \<open>skip_step\<close>: the in-memory strategy on a table of at least
  \<open>num_shifted_sentences \<ge> 0\<close> sequences (and \<open>explicit_seq_len\<close> no larger than the
  table) produces any number of batches, and the on-disk strategy with
  \<open>num_shifted_sentences > 0\<close> produces, whenever it returns them, batches \<open>(x, y)\<close>
  of two arrays of \<open>batch_size = num_shifted_sentences * (max_seq_len // skip_step)\<close>
  rows and \<open>max_seq_len\<close> columns each.
\<close>

lemma batch_shape:
  "(init (Table rows) maxlen minlen shifted pad skip explicit noslurp = Inr g \<longrightarrow>
      0 < skip \<longrightarrow> 0 \<le> shifted \<longrightarrow> shifted \<le> int (length rows) \<longrightarrow>
      explicit_seq_len g \<le> int (length rows) \<longrightarrow>
      get_batch_size g = Inr (shifted * (maxlen div skip)) \<and>
      (\<exists>bs g'. generate_slurped g k = Inr (bs, g') \<and> length bs = k \<and>
         (\<forall>(x, y) \<in> set bs.
            int (length x) = shifted * (maxlen div skip) \<and> length y = length x \<and>
            (\<forall>r \<in> set x \<union> set y. int (length r) = maxlen)))) \<and>
   (init (CorpusPath p) maxlen minlen shifted pad skip explicit noslurp = Inr gd \<longrightarrow>
      0 < skip \<longrightarrow> 0 < shifted \<longrightarrow>
      generate_from_disk fuel gd f k = Some (Inr (ds, pos)) \<longrightarrow>
      get_batch_size gd = Inr (shifted * (maxlen div skip)) \<and> length ds = k \<and>
      (\<forall>(x, y) \<in> set ds.
         int (length x) = shifted * (maxlen div skip) \<and> length y = length x \<and>
         (\<forall>r \<in> set x \<union> set y. int (length r) = maxlen)))"
proof -
  have mem:
    "init (Table rows) maxlen minlen shifted pad skip explicit noslurp = Inr g \<longrightarrow>
      0 < skip \<longrightarrow> 0 \<le> shifted \<longrightarrow> shifted \<le> int (length rows) \<longrightarrow>
      explicit_seq_len g \<le> int (length rows) \<longrightarrow>
      get_batch_size g = Inr (shifted * (maxlen div skip)) \<and>
      (\<exists>bs g'. generate_slurped g k = Inr (bs, g') \<and> length bs = k \<and>
         (\<forall>(x, y) \<in> set bs.
            int (length x) = shifted * (maxlen div skip) \<and> length y = length x \<and>
            (\<forall>r \<in> set x \<union> set y. int (length r) = maxlen)))"
  proof (intro impI)
    assume i: "init (Table rows) maxlen minlen shifted pad skip explicit noslurp = Inr g"
      and pos: "0 < skip" and n: "0 \<le> shifted" "shifted \<le> int (length rows)"
      and e: "explicit_seq_len g \<le> int (length rows)"
    note f = init_fields [OF i]
    note w = windows_nonneg [OF pos f(8)]
    have size: "get_batch_size g = Inr (shifted * (maxlen div skip))"
      by (simp add: get_batch_size_def get_num_sliding_windows_def f w)
    have "\<exists>bs g'. slurped_run (maxlen div skip) g k = Inr (bs, g') \<and> length bs = k \<and>
            (\<forall>(x, y) \<in> set bs.
               int (length x) = num_shifted_sentences g * (maxlen div skip) \<and>
               length y = length x \<and>
               (\<forall>r \<in> set x \<union> set y. int (length r) = max_seq_len g))"
      using pos n e w(2) f by (intro slurped_run_full_batches [of g rows]) simp_all
    then have "\<exists>bs g'. generate_slurped g k = Inr (bs, g') \<and> length bs = k \<and>
           (\<forall>(x, y) \<in> set bs.
              int (length x) = shifted * (maxlen div skip) \<and> length y = length x \<and>
              (\<forall>r \<in> set x \<union> set y. int (length r) = maxlen))"
      by (cases "k = 0") (auto simp: generate_slurped_def f w)
    with size show "get_batch_size g = Inr (shifted * (maxlen div skip)) \<and>
      (\<exists>bs g'. generate_slurped g k = Inr (bs, g') \<and> length bs = k \<and>
         (\<forall>(x, y) \<in> set bs.
            int (length x) = shifted * (maxlen div skip) \<and> length y = length x \<and>
            (\<forall>r \<in> set x \<union> set y. int (length r) = maxlen)))" ..
  qed
  have disk:
    "init (CorpusPath p) maxlen minlen shifted pad skip explicit noslurp = Inr gd \<longrightarrow>
      0 < skip \<longrightarrow> 0 < shifted \<longrightarrow>
      generate_from_disk fuel gd f k = Some (Inr (ds, pos)) \<longrightarrow>
      get_batch_size gd = Inr (shifted * (maxlen div skip)) \<and> length ds = k \<and>
      (\<forall>(x, y) \<in> set ds.
         int (length x) = shifted * (maxlen div skip) \<and> length y = length x \<and>
         (\<forall>r \<in> set x \<union> set y. int (length r) = maxlen))"
  proof (intro impI)
    assume i: "init (CorpusPath p) maxlen minlen shifted pad skip explicit noslurp = Inr gd"
      and pos: "0 < skip" and n: "0 < shifted"
      and run: "generate_from_disk fuel gd f k = Some (Inr (ds, pos))"
    note f = init_fields [OF i]
    note w = windows_nonneg [OF pos f(8)]
    show "get_batch_size gd = Inr (shifted * (maxlen div skip)) \<and> length ds = k \<and>
        (\<forall>(x, y) \<in> set ds.
           int (length x) = shifted * (maxlen div skip) \<and> length y = length x \<and>
           (\<forall>r \<in> set x \<union> set y. int (length r) = maxlen))"
    proof (cases "k = 0")
      case True
      with run show ?thesis
        by (simp add: generate_from_disk_def get_batch_size_def get_num_sliding_windows_def
            f w)
    next
      case False
      with run have "disk_run fuel (maxlen div skip) gd f 0 k = Some (Inr (ds, pos))"
        by (simp add: generate_from_disk_def f w)
      from disk_run_shape [OF this] n w(2) show ?thesis
        by (simp add: get_batch_size_def get_num_sliding_windows_def f w)
    qed
  qed
  from mem disk show ?thesis ..
qed

lemma batch_shape_example:
  "(\<exists>bs g'. generate_slurped
        \<lparr>x_sequences = Table [[2, 7, 8, 3], [2, 9, 3, 1], [2, 5, 6, 3], [2, 4, 3, 1]],
         explicit_seq_len = 4, no_slurp = False, max_seq_len = 4, min_seq_len = 2,
         num_shifted_sentences = 2, current_idx = 0, skip_step = 2,
         pad_idx_or_symbol = 1\<rparr> 5 = Inr (bs, g') \<and> length bs = 5 \<and>
       (\<forall>(x, y) \<in> set bs. int (length x) = 4 \<and> length y = length x \<and>
          (\<forall>r \<in> set x \<union> set y. int (length r) = 4))) \<and>
   generate_from_disk 4
     \<lparr>x_sequences = CorpusPath ''ids.txt'', explicit_seq_len = 4, no_slurp = True,
      max_seq_len = 4, min_seq_len = 2, num_shifted_sentences = 2, current_idx = 0,
      skip_step = 2, pad_idx_or_symbol = 0\<rparr>
     [''2 7 8 3\<newline>'', ''2 9 3\<newline>'', ''2 5 6 3 9 9\<newline>'', ''2 4 3'']
     2 =
     Some (Inr ([([[2, 7, 8, 3], [2, 9, 3, 0], [8, 3, 1, 1], [3, 0, 1, 1]],
                  [[7, 8, 3, 1], [9, 3, 0, 1], [3, 1, 1, 1], [0, 1, 1, 1]]),
                 ([[2, 5, 6, 3], [2, 4, 3, 0], [6, 3, 1, 1], [3, 0, 1, 1]],
                  [[5, 6, 3, 1], [4, 3, 0, 1], [3, 1, 1, 1], [0, 1, 1, 1]])], 4)) \<and>
   get_batch_size
     \<lparr>x_sequences = CorpusPath ''ids.txt'', explicit_seq_len = 4, no_slurp = True,
      max_seq_len = 4, min_seq_len = 2, num_shifted_sentences = 2, current_idx = 0,
      skip_step = 2, pad_idx_or_symbol = 0\<rparr> = Inr 4 \<and>
   map (\<lambda>(x, y). (length x, map length x, length y, map length y))
     [([[2, 7, 8, 3], [2, 9, 3, 0], [8, 3, 1, 1], [3, 0, 1, 1]],
       [[7, 8, 3, 1], [9, 3, 0, 1], [3, 1, 1, 1], [0, 1, 1, 1]]),
      ([[2, 5, 6, 3], [2, 4, 3, 0], [6, 3, 1, 1], [3, 0, 1, 1]],
       [[5, 6, 3, 1], [4, 3, 0, 1], [3, 1, 1, 1], [0, 1, 1, 1 :: int]])] =
     [(4, [4, 4, 4, 4], 4, [4, 4, 4, 4]), (4, [4, 4, 4, 4], 4, [4, 4, 4, 4])]"
proof -
  let ?rows = "[[2, 7, 8, 3], [2, 9, 3, 1], [2, 5, 6, 3], [2, 4, 3, 1 :: int]]"
  let ?g = "\<lparr>x_sequences = Table ?rows,
         explicit_seq_len = 4, no_slurp = False, max_seq_len = 4, min_seq_len = 2,
         num_shifted_sentences = 2, current_idx = 0, skip_step = 2,
         pad_idx_or_symbol = 1\<rparr>"
  let ?gd = "\<lparr>x_sequences = CorpusPath ''ids.txt'', explicit_seq_len = 4, no_slurp = True,
      max_seq_len = 4, min_seq_len = 2, num_shifted_sentences = 2, current_idx = 0,
      skip_step = 2, pad_idx_or_symbol = 0\<rparr>"
  let ?f = "[''2 7 8 3\<newline>'', ''2 9 3\<newline>'', ''2 5 6 3 9 9\<newline>'', ''2 4 3'']"
  have i: "init (Table ?rows) 4 2 2 1 2 None False = Inr ?g"
    by (simp add: init_def)
  have "(0::int) < 2" "(0::int) \<le> 2" "(2::int) \<le> int (length ?rows)"
    "explicit_seq_len ?g \<le> int (length ?rows)" by simp_all
  note mem = batch_shape [THEN conjunct1, rule_format, OF i this, of 5]
  have d: "init (CorpusPath ''ids.txt'') 4 2 2 0 2 (Some 4) True = Inr ?gd"
    by (simp add: init_def)
  have r: "generate_from_disk 4 ?gd ?f 2 =
     Some (Inr ([([[2, 7, 8, 3], [2, 9, 3, 0], [8, 3, 1, 1], [3, 0, 1, 1]],
                  [[7, 8, 3, 1], [9, 3, 0, 1], [3, 1, 1, 1], [0, 1, 1, 1]]),
                 ([[2, 5, 6, 3], [2, 4, 3, 0], [6, 3, 1, 1], [3, 0, 1, 1]],
                  [[5, 6, 3, 1], [4, 3, 0, 1], [3, 1, 1, 1], [0, 1, 1, 1]])], 4))"
    by code_simp
  have "(0::int) < 2" "(0::int) < 2" by simp_all
  note disk = batch_shape [THEN conjunct2, rule_format, OF d this r]
  from mem disk r show ?thesis by simp
qed

subsection \<open>Cells of a batch\<close>

lemma repad_rows:
  assumes "repad g (xr, yr) = Inr (x, y)"
  shows "length x = length xr" and "length y = length yr"
    and "\<And>i. i < length xr \<Longrightarrow> pad_row Post Pre (max_seq_len g) 1 (xr ! i) = Inr (x ! i)"
    and "\<And>i. i < length yr \<Longrightarrow> pad_row Post Pre (max_seq_len g) 1 (yr ! i) = Inr (y ! i)"
    and "0 \<le> max_seq_len g"
proof -
  from assms obtain
    x: "pad_sequences Post Pre (max_seq_len g) 1 xr = Inr x" and
    y: "pad_sequences Post Pre (max_seq_len g) 1 yr = Inr y"
    by (auto simp: repad_def split: sum.splits)
  from x show m: "0 \<le> max_seq_len g" by (rule pad_sequences_shape)
  from x y m have
    cx: "collect (map (pad_row Post Pre (max_seq_len g) 1) xr) = Inr x" and
    cy: "collect (map (pad_row Post Pre (max_seq_len g) 1) yr) = Inr y"
    by (simp_all add: pad_sequences_def)
  from cx show "length x = length xr" by (rule collect_map_nth)
  from cy show "length y = length yr" by (rule collect_map_nth)
  show "pad_row Post Pre (max_seq_len g) 1 (xr ! i) = Inr (x ! i)" if "i < length xr" for i
    using cx that by (rule collect_map_nth)
  show "pad_row Post Pre (max_seq_len g) 1 (yr ! i) = Inr (y ! i)" if "i < length yr" for i
    using cy that by (rule collect_map_nth)
qed

lemma shifted_cell:
  assumes "length s \<le> m" and "k < m"
  shows "(drop 1 s @ replicate (m - length (drop 1 s)) v) ! k =
         (if k + 1 < length s then (s @ replicate (m - length s) v) ! (k + 1) else v)"
  using assms by (auto simp: nth_append)

lemma repad_shift_cells:
  assumes r: "repad g (shift_windows nsw skip block) = Inr (x, y)"
    and fit: "\<And>b. b \<in> set block \<Longrightarrow> length b \<le> nat (max_seq_len g)"
  shows "length x = length (fst (shift_windows nsw skip block))"
    and "length y = length (fst (shift_windows nsw skip block))"
    and "\<And>i k. i < length (fst (shift_windows nsw skip block)) \<Longrightarrow> int k < max_seq_len g \<Longrightarrow>
           y ! i ! k =
             (if k + 1 < length (fst (shift_windows nsw skip block) ! i)
              then x ! i ! (k + 1) else PAD_ID)"
proof -
  let ?xr = "fst (shift_windows nsw skip block)"
  let ?yr = "map (drop 1) ?xr"
  from r have r': "repad g (?xr, ?yr) = Inr (x, y)"
    by (simp only: shift_windows_snd [symmetric] prod.collapse)
  from repad_rows(1,2) [OF r'] show "length x = length ?xr" "length y = length ?xr"
    by simp_all
  fix i k assume i: "i < length ?xr" and k: "int k < max_seq_len g"
  let ?s = "?xr ! i" and ?m = "nat (max_seq_len g)"
  from i have "?s \<in> set ?xr" by simp
  from shift_windows_row_length [OF this] fit have len: "length ?s \<le> ?m"
    by (meson order_trans)
  then have "length (drop 1 ?s) \<le> ?m" by simp
  from repad_rows(3) [OF r' i] pad_row_post_pre_fits [OF len]
  have x: "x ! i = ?s @ replicate (?m - length ?s) 1" by simp
  from i have "pad_row Post Pre (max_seq_len g) 1 (drop 1 ?s) = Inr (y ! i)"
    using repad_rows(4) [OF r', of i] by simp
  with pad_row_post_pre_fits [OF \<open>length (drop 1 ?s) \<le> ?m\<close>]
  have y: "y ! i = drop 1 ?s @ replicate (?m - length (drop 1 ?s)) 1" by simp
  from k have "k < ?m" by simp
  from shifted_cell [OF len this, of 1] show
    "y ! i ! k = (if k + 1 < length ?s then x ! i ! (k + 1) else PAD_ID)"
    by (simp only: x y PAD_ID_def)
qed

lemma repad_pad_cells:
  assumes r: "repad g (shift_windows nsw skip block) = Inr (x, y)"
    and i: "i < length (fst (shift_windows nsw skip block))"
    and k: "int k < max_seq_len g"
  shows "length (fst (shift_windows nsw skip block) ! i) \<le> k \<Longrightarrow> x ! i ! k = 1"
    and "length (fst (shift_windows nsw skip block) ! i) - 1 \<le> k \<Longrightarrow> y ! i ! k = 1"
proof -
  let ?xr = "fst (shift_windows nsw skip block)"
  let ?yr = "map (drop 1) ?xr"
  from r have r': "repad g (?xr, ?yr) = Inr (x, y)"
    by (simp only: shift_windows_snd [symmetric] prod.collapse)
  from k have k': "k < nat (max_seq_len g)" by simp
  show "x ! i ! k = 1" if "length (?xr ! i) \<le> k"
    using repad_rows(3) [OF r' i] that k' by (rule pad_row_post_pre_cells)
  from i have "pad_row Post Pre (max_seq_len g) 1 (drop 1 (?xr ! i)) = Inr (y ! i)"
    using repad_rows(4) [OF r', of i] by simp
  then show "y ! i ! k = 1" if "length (?xr ! i) - 1 \<le> k"
    using that k' by (intro pad_row_post_pre_cells [where s = "drop 1 (?xr ! i)"]) simp_all
qed

lemma set_slice_subset: "set (slice a b xs) \<subseteq> set xs"
  by (auto simp: slice_def Let_def dest: in_set_takeD in_set_dropD)

lemma slurped_iteration_repad:
  assumes "x_sequences g = Table rows" and "slurped_iteration nsw g = Inr ((x, y), g')"
  shows "repad g (shift_windows nsw (skip_step g) (slurped_block (wrap_cursor g) rows))
           = Inr (x, y)"
  using assms by (auto simp: slurped_iteration_Table split: sum.splits)

text \<open>Every batch of a run is the batch of one turn of the loop.\<close>

lemma slurped_run_emitted:
  assumes "slurped_run nsw g k = Inr (bs, g')" and "b \<in> set bs"
  shows "\<exists>c g''. slurped_iteration nsw (g\<lparr>current_idx := c\<rparr>) = Inr (b, g'')"
  using assms
proof (induction k arbitrary: g bs)
  case 0
  then show ?case by simp
next
  case (Suc k)
  from Suc.prems(1) obtain b0 g1 bs1 where
    it: "slurped_iteration nsw g = Inr (b0, g1)" and
    run: "slurped_run nsw g1 k = Inr (bs1, g')" and bs: "bs = b0 # bs1"
    by (auto split: sum.splits)
  show ?case
  proof (cases "b = b0")
    case True
    with it have "slurped_iteration nsw (g\<lparr>current_idx := current_idx g\<rparr>) = Inr (b, g1)"
      by simp
    then show ?thesis by blast
  next
    case False
    with Suc.prems(2) bs have "b \<in> set bs1" by simp
    from Suc.IH [OF run this] obtain c g'' where
      "slurped_iteration nsw (g1\<lparr>current_idx := c\<rparr>) = Inr (b, g'')" by blast
    moreover from slurped_iteration_cursor [OF it]
    have "g1\<lparr>current_idx := c\<rparr> = g\<lparr>current_idx := c\<rparr>" by simp
    ultimately show ?thesis by auto
  qed
qed

lemma disk_run_emitted:
  assumes "disk_run fuel nsw g f pos k = Some (Inr (bs, pos'))" and "b \<in> set bs"
  shows "\<exists>p p'. disk_iteration fuel nsw g f p = Some (Inr (b, p'))"
  using assms
proof (induction k arbitrary: pos bs)
  case 0
  then show ?case by simp
next
  case (Suc k)
  from Suc.prems(1) obtain b0 pos1 bs1 where
    it: "disk_iteration fuel nsw g f pos = Some (Inr (b0, pos1))" and
    run: "disk_run fuel nsw g f pos1 k = Some (Inr (bs1, pos'))" and bs: "bs = b0 # bs1"
    by (auto split: option.splits sum.splits)
  show ?case
  proof (cases "b = b0")
    case True
    with it show ?thesis by blast
  next
    case False
    with Suc.prems(2) bs have "b \<in> set bs1" by simp
    from Suc.IH [OF run this] show ?thesis .
  qed
qed

text \<open>
  C1, as stated, fails in the in-memory strategy on a table whose rows are longer than
  \<open>max_seq_len\<close>, which \<^verbatim>\<open>__init__\<close> accepts: the closing \<^verbatim>\<open>pad_sequences\<close>
  truncates at its default \<open>pre\<close> and keeps the last \<open>max_seq_len\<close> ids of a window
  row, of \<open>x\<close> and of \<open>y\<close> alike. With the row \<open>[2, 7, 8, 9, 3]\<close> and
  \<open>max_seq_len = 4\<close>, \<open>skip_step = 2\<close>, the first window row has a column \<open>1\<close>,
  and \<open>y[0][0] = 7\<close> while \<open>x[0][1] = 8\<close>.
\<close>

theorem target_shifted_by_one_counterexample:
  "init (Table [[2, 7, 8, 9, 3]]) 4 2 1 1 2 None False =
     Inr \<lparr>x_sequences = Table [[2, 7, 8, 9, 3]], explicit_seq_len = 1, no_slurp = False,
          max_seq_len = 4, min_seq_len = 2, num_shifted_sentences = 1, current_idx = 0,
          skip_step = 2, pad_idx_or_symbol = 1\<rparr> \<and>
   fst (shift_windows 2 2
          (slurped_block
             (wrap_cursor
                \<lparr>x_sequences = Table [[2, 7, 8, 9, 3]], explicit_seq_len = 1,
                 no_slurp = False, max_seq_len = 4, min_seq_len = 2,
                 num_shifted_sentences = 1, current_idx = 0, skip_step = 2,
                 pad_idx_or_symbol = 1\<rparr>)
             [[2, 7, 8, 9, 3]])) = [[2, 7, 8, 9, 3], [8, 9, 3]] \<and>
   generate_slurped
     \<lparr>x_sequences = Table [[2, 7, 8, 9, 3]], explicit_seq_len = 1, no_slurp = False,
      max_seq_len = 4, min_seq_len = 2, num_shifted_sentences = 1, current_idx = 0,
      skip_step = 2, pad_idx_or_symbol = 1\<rparr> 1 =
     Inr ([([[7, 8, 9, 3], [8, 9, 3, 1]], [[7, 8, 9, 3], [9, 3, 1, 1]])],
          \<lparr>x_sequences = Table [[2, 7, 8, 9, 3]], explicit_seq_len = 1, no_slurp = False,
           max_seq_len = 4, min_seq_len = 2, num_shifted_sentences = 1, current_idx = 1,
           skip_step = 2, pad_idx_or_symbol = 1\<rparr>) \<and>
   [[7, 8, 9, 3], [9, 3, 1, 1]] ! 0 ! 0 = (7 :: int) \<and>
   [[7, 8, 9, 3], [8, 9, 3, 1]] ! 0 ! 1 = (8 :: int)"
  by code_simp

text \<open>
  C1, amended. A batch is produced by one turn of the loop of its strategy
  (\<open>slurped_run_emitted\<close>, \<open>disk_run_emitted\<close>), so the statement is about a
  turn from an arbitrary state. In the in-memory strategy no row of the table is longer
  than \<open>max_seq_len\<close>; in the on-disk strategy the block is what the turn has read and
  padded, with no condition. With \<open>xr\<close> the window rows before the final re-padding,
  row \<open>i\<close> of \<open>y\<close> is row \<open>i\<close> of \<open>x\<close> shifted left by one column:
  \<open>y[i][k] = x[i][k + 1]\<close> wherever column \<open>k + 1\<close> of the window row exists, and
  the pad id \<open>1\<close> in every other column.
\<close>

theorem target_shifted_by_one:
  "(x_sequences g = Table rows \<longrightarrow> (\<forall>r \<in> set rows. int (length r) \<le> max_seq_len g) \<longrightarrow>
      slurped_iteration nsw g = Inr ((x, y), g') \<longrightarrow>
      (let xr = fst (shift_windows nsw (skip_step g) (slurped_block (wrap_cursor g) rows))
       in length x = length xr \<and> length y = length xr \<and>
          (\<forall>i < length xr. \<forall>k. int k < max_seq_len g \<longrightarrow>
             y ! i ! k = (if k + 1 < length (xr ! i) then x ! i ! (k + 1) else PAD_ID)))) \<and>
   (read_block gd f fuel pos [] 0 = Some (Inr (block, pos')) \<longrightarrow>
      pad_sequences Post Post (max_seq_len gd) (pad_idx_or_symbol gd) block = Inr padded \<longrightarrow>
      disk_iteration fuel nsw gd f pos = Some (Inr ((xd, yd), pos')) \<longrightarrow>
      (let xr = fst (shift_windows nsw (skip_step gd) padded)
       in length xd = length xr \<and> length yd = length xr \<and>
          (\<forall>i < length xr. \<forall>k. int k < max_seq_len gd \<longrightarrow>
             yd ! i ! k = (if k + 1 < length (xr ! i) then xd ! i ! (k + 1) else PAD_ID))))"
proof -
  have mem: "x_sequences g = Table rows \<longrightarrow> (\<forall>r \<in> set rows. int (length r) \<le> max_seq_len g) \<longrightarrow>
      slurped_iteration nsw g = Inr ((x, y), g') \<longrightarrow>
      (let xr = fst (shift_windows nsw (skip_step g) (slurped_block (wrap_cursor g) rows))
       in length x = length xr \<and> length y = length xr \<and>
          (\<forall>i < length xr. \<forall>k. int k < max_seq_len g \<longrightarrow>
             y ! i ! k = (if k + 1 < length (xr ! i) then x ! i ! (k + 1) else PAD_ID)))"
  proof (intro impI)
    assume t: "x_sequences g = Table rows"
      and cols: "\<forall>r \<in> set rows. int (length r) \<le> max_seq_len g"
      and it: "slurped_iteration nsw g = Inr ((x, y), g')"
    let ?block = "slurped_block (wrap_cursor g) rows"
    note r = slurped_iteration_repad [OF t it]
    have fit: "length b \<le> nat (max_seq_len g)" if "b \<in> set ?block" for b
    proof -
      from that have "b \<in> set rows"
        by (auto simp: slurped_block_def dest: set_slice_subset [THEN subsetD])
      with cols show ?thesis by auto
    qed
    from repad_shift_cells [OF r fit]
    show "let xr = fst (shift_windows nsw (skip_step g) ?block)
       in length x = length xr \<and> length y = length xr \<and>
          (\<forall>i < length xr. \<forall>k. int k < max_seq_len g \<longrightarrow>
             y ! i ! k = (if k + 1 < length (xr ! i) then x ! i ! (k + 1) else PAD_ID))"
      by (simp add: Let_def)
  qed
  have disk: "read_block gd f fuel pos [] 0 = Some (Inr (block, pos')) \<longrightarrow>
      pad_sequences Post Post (max_seq_len gd) (pad_idx_or_symbol gd) block = Inr padded \<longrightarrow>
      disk_iteration fuel nsw gd f pos = Some (Inr ((xd, yd), pos')) \<longrightarrow>
      (let xr = fst (shift_windows nsw (skip_step gd) padded)
       in length xd = length xr \<and> length yd = length xr \<and>
          (\<forall>i < length xr. \<forall>k. int k < max_seq_len gd \<longrightarrow>
             yd ! i ! k = (if k + 1 < length (xr ! i) then xd ! i ! (k + 1) else PAD_ID)))"
  proof (intro impI)
    assume rb: "read_block gd f fuel pos [] 0 = Some (Inr (block, pos'))"
      and pd: "pad_sequences Post Post (max_seq_len gd) (pad_idx_or_symbol gd) block = Inr padded"
      and it: "disk_iteration fuel nsw gd f pos = Some (Inr ((xd, yd), pos'))"
    from it rb pd have r: "repad gd (shift_windows nsw (skip_step gd) padded) = Inr (xd, yd)"
      by (auto simp: disk_iteration_def split: sum.splits)
    have fit: "length b \<le> nat (max_seq_len gd)" if "b \<in> set padded" for b
      using pad_sequences_shape(3) [OF pd that] by simp
    from repad_shift_cells [OF r fit]
    show "let xr = fst (shift_windows nsw (skip_step gd) padded)
       in length xd = length xr \<and> length yd = length xr \<and>
          (\<forall>i < length xr. \<forall>k. int k < max_seq_len gd \<longrightarrow>
             yd ! i ! k = (if k + 1 < length (xr ! i) then xd ! i ! (k + 1) else PAD_ID))"
      by (simp add: Let_def)
  qed
  from mem disk show ?thesis ..
qed

theorem target_shifted_by_one_witness:
  "slurped_iteration 2
     \<lparr>x_sequences = Table [[2, 7, 8, 3], [2, 9, 3, 1], [2, 5, 6, 3], [2, 4, 3, 1]],
      explicit_seq_len = 4, no_slurp = False, max_seq_len = 4, min_seq_len = 2,
      num_shifted_sentences = 2, current_idx = 2, skip_step = 2, pad_idx_or_symbol = 1\<rparr> =
     Inr (([[2, 7, 8, 3], [2, 9, 3, 1], [8, 3, 1, 1], [3, 1, 1, 1]],
           [[7, 8, 3, 1], [9, 3, 1, 1], [3, 1, 1, 1], [1, 1, 1, 1]]),
          \<lparr>x_sequences = Table [[2, 7, 8, 3], [2, 9, 3, 1], [2, 5, 6, 3], [2, 4, 3, 1]],
           explicit_seq_len = 4, no_slurp = False, max_seq_len = 4, min_seq_len = 2,
           num_shifted_sentences = 2, current_idx = 2, skip_step = 2,
           pad_idx_or_symbol = 1\<rparr>) \<and>
   [[7, 8, 3, 1], [9, 3, 1, 1], [3, 1, 1, 1], [1, 1, 1, 1]] ! 2 ! 0 =
     [[2, 7, 8, 3], [2, 9, 3, 1], [8, 3, 1, 1], [3, 1, 1, 1 :: int]] ! 2 ! 1 \<and>
   [[7, 8, 3, 1], [9, 3, 1, 1], [3, 1, 1, 1], [1, 1, 1, 1]] ! 2 ! 1 = PAD_ID \<and>
   disk_iteration 2 2
     \<lparr>x_sequences = CorpusPath ''ids.txt'', explicit_seq_len = 4, no_slurp = True,
      max_seq_len = 4, min_seq_len = 2, num_shifted_sentences = 2, current_idx = 0,
      skip_step = 2, pad_idx_or_symbol = 1\<rparr>
     [''2 7 8 3\<newline>'', ''2 9 3\<newline>'', ''2 5 6 3 9 9\<newline>'', ''2 4 3''] 2 =
     Some (Inr (([[2, 5, 6, 3], [2, 4, 3, 1], [6, 3, 1, 1], [3, 1, 1, 1]],
                 [[5, 6, 3, 1], [4, 3, 1, 1], [3, 1, 1, 1], [1, 1, 1, 1]]), 4)) \<and>
   [[5, 6, 3, 1], [4, 3, 1, 1], [3, 1, 1, 1], [1, 1, 1, 1]] ! 1 ! 1 =
     [[2, 5, 6, 3], [2, 4, 3, 1], [6, 3, 1, 1], [3, 1, 1, 1 :: int]] ! 1 ! 2 \<and>
   [[5, 6, 3, 1], [4, 3, 1, 1], [3, 1, 1, 1], [1, 1, 1, 1]] ! 1 ! 3 = PAD_ID"
proof -
  let ?rows = "[[2, 7, 8, 3], [2, 9, 3, 1], [2, 5, 6, 3], [2, 4, 3, 1 :: int]]"
  let ?g = "\<lparr>x_sequences = Table ?rows,
      explicit_seq_len = 4, no_slurp = False, max_seq_len = 4, min_seq_len = 2,
      num_shifted_sentences = 2, current_idx = 2, skip_step = 2, pad_idx_or_symbol = 1\<rparr>"
  let ?gd = "\<lparr>x_sequences = CorpusPath ''ids.txt'', explicit_seq_len = 4, no_slurp = True,
      max_seq_len = 4, min_seq_len = 2, num_shifted_sentences = 2, current_idx = 0,
      skip_step = 2, pad_idx_or_symbol = 1\<rparr>"
  let ?f = "[''2 7 8 3\<newline>'', ''2 9 3\<newline>'', ''2 5 6 3 9 9\<newline>'', ''2 4 3'']"
  have t: "x_sequences ?g = Table ?rows" by simp
  have cols: "\<forall>r \<in> set ?rows. int (length r) \<le> max_seq_len ?g" by simp
  have it: "slurped_iteration 2 ?g =
     Inr (([[2, 7, 8, 3], [2, 9, 3, 1], [8, 3, 1, 1], [3, 1, 1, 1]],
           [[7, 8, 3, 1], [9, 3, 1, 1], [3, 1, 1, 1], [1, 1, 1, 1]]), ?g)"
    by code_simp
  have xr: "fst (shift_windows 2 (skip_step ?g) (slurped_block (wrap_cursor ?g) ?rows)) =
     [[2, 7, 8, 3], [2, 9, 3, 1], [8, 3], [3, 1]]"
    by code_simp
  note mem = target_shifted_by_one [THEN conjunct1, THEN mp, OF t, THEN mp, OF cols, THEN mp, OF it]
  have rb: "read_block ?gd ?f 2 2 [] 0 = Some (Inr ([[2, 5, 6, 3, 9, 9], [2, 4, 3]], 4))"
    by code_simp
  have pd: "pad_sequences Post Post (max_seq_len ?gd) (pad_idx_or_symbol ?gd)
      [[2, 5, 6, 3, 9, 9], [2, 4, 3]] = Inr [[2, 5, 6, 3], [2, 4, 3, 1]]"
    by code_simp
  have dit: "disk_iteration 2 2 ?gd ?f 2 =
     Some (Inr (([[2, 5, 6, 3], [2, 4, 3, 1], [6, 3, 1, 1], [3, 1, 1, 1]],
                 [[5, 6, 3, 1], [4, 3, 1, 1], [3, 1, 1, 1], [1, 1, 1, 1]]), 4))"
    by code_simp
  have xrd: "fst (shift_windows 2 (skip_step ?gd) [[2, 5, 6, 3], [2, 4, 3, 1]]) =
     [[2, 5, 6, 3], [2, 4, 3, 1], [6, 3], [3, 1]]"
    by code_simp
  note disk = target_shifted_by_one [THEN conjunct2, THEN mp, OF rb, THEN mp, OF pd, THEN mp, OF dit]
  from mem have m: "\<forall>i < 4. \<forall>k. int k < 4 \<longrightarrow>
      [[7, 8, 3, 1], [9, 3, 1, 1], [3, 1, 1, 1], [1, 1, 1, 1]] ! i ! k =
        (if k + 1 < length ([[2, 7, 8, 3], [2, 9, 3, 1], [8, 3], [3, 1 :: int]] ! i)
         then [[2, 7, 8, 3], [2, 9, 3, 1], [8, 3, 1, 1], [3, 1, 1, 1]] ! i ! (k + 1)
         else PAD_ID)"
    unfolding xr Let_def by simp
  from disk have d: "\<forall>i < 4. \<forall>k. int k < 4 \<longrightarrow>
      [[5, 6, 3, 1], [4, 3, 1, 1], [3, 1, 1, 1], [1, 1, 1, 1]] ! i ! k =
        (if k + 1 < length ([[2, 5, 6, 3], [2, 4, 3, 1], [6, 3], [3, 1 :: int]] ! i)
         then [[2, 5, 6, 3], [2, 4, 3, 1], [6, 3, 1, 1], [3, 1, 1, 1]] ! i ! (k + 1)
         else PAD_ID)"
    unfolding xrd Let_def by simp
  from m [rule_format, of 2 0] m [rule_format, of 2 1]
    d [rule_format, of 1 1] d [rule_format, of 1 3] it dit
  show ?thesis by simp
qed

lemma slurped_iteration_pad_irrelevant:
  "map_sum id fst (slurped_iteration nsw (g\<lparr>pad_idx_or_symbol := p\<rparr>)) =
   map_sum id fst (slurped_iteration nsw g)"
proof -
  have w: "wrap_cursor (g\<lparr>pad_idx_or_symbol := p\<rparr>) = (wrap_cursor g)\<lparr>pad_idx_or_symbol := p\<rparr>"
    by (simp add: wrap_cursor_def)
  have b: "slurped_block (h\<lparr>pad_idx_or_symbol := p\<rparr>) rows = slurped_block h rows" for h rows
    by (simp add: slurped_block_def)
  have r: "repad (h\<lparr>pad_idx_or_symbol := p\<rparr>) xy = repad h xy" for h xy
    by (rule repad_max_seq_len) simp
  show ?thesis
  proof (cases "x_sequences g")
    case (Table rows)
    then have "x_sequences (g\<lparr>pad_idx_or_symbol := p\<rparr>) = Table rows" by simp
    from slurped_iteration_Table [OF this] slurped_iteration_Table [OF Table]
    show ?thesis by (simp add: w b r split: sum.splits)
  next
    case (CorpusPath path)
    have "repad (h\<lparr>current_idx := c\<rparr>) xy = repad g xy"
      if "max_seq_len h = max_seq_len g" for h c xy
      using that by (intro repad_max_seq_len) simp
    with CorpusPath show ?thesis
      by (simp add: slurped_iteration_def Let_def w split: sum.splits)
  qed
qed

lemma block_padding_cells:
  assumes "pad_sequences Post Post m v block = Inr padded"
    and "j < length block" and "length (block ! j) \<le> k" and "int k < m"
  shows "padded ! j ! k = v"
proof -
  from assms(1) have "0 \<le> m" by (rule pad_sequences_shape)
  with assms(1) pad_sequences_post_post [OF this, of v block]
  have "padded = map (\<lambda>s. take (nat m) s @ replicate (nat m - length s) v) block" by simp
  with assms(2-4) show ?thesis by (simp add: nth_append)
qed

text \<open>
  C10. The configured \<^verbatim>\<open>pad_idx_or_symbol\<close> has no influence on the batches of the
  in-memory strategy, and in both strategies every cell that the final re-padding adds to
  a window row (in \<open>x\<close> from the length of the window row on, in \<open>y\<close> from one column
  earlier) holds the literal \<open>1\<close>. Only the padding of the block read from disk up to
  \<open>max_seq_len\<close> columns holds the configured value.
\<close>

theorem repadding_uses_literal_one:
  "map_sum id fst (slurped_iteration nsw (g\<lparr>pad_idx_or_symbol := p\<rparr>)) =
     map_sum id fst (slurped_iteration nsw g) \<and>
   (x_sequences g = Table rows \<longrightarrow> slurped_iteration nsw g = Inr ((x, y), g') \<longrightarrow>
      (let xr = fst (shift_windows nsw (skip_step g) (slurped_block (wrap_cursor g) rows))
       in \<forall>i < length xr. \<forall>k. int k < max_seq_len g \<longrightarrow>
            (length (xr ! i) \<le> k \<longrightarrow> x ! i ! k = 1) \<and>
            (length (xr ! i) - 1 \<le> k \<longrightarrow> y ! i ! k = 1))) \<and>
   (read_block gd f fuel pos [] 0 = Some (Inr (block, pos')) \<longrightarrow>
      pad_sequences Post Post (max_seq_len gd) (pad_idx_or_symbol gd) block = Inr padded \<longrightarrow>
      disk_iteration fuel nsw gd f pos = Some (Inr ((xd, yd), pos')) \<longrightarrow>
      (\<forall>j < length block. \<forall>k. length (block ! j) \<le> k \<longrightarrow> int k < max_seq_len gd \<longrightarrow>
         padded ! j ! k = pad_idx_or_symbol gd) \<and>
      (let xr = fst (shift_windows nsw (skip_step gd) padded)
       in \<forall>i < length xr. \<forall>k. int k < max_seq_len gd \<longrightarrow>
            (length (xr ! i) \<le> k \<longrightarrow> xd ! i ! k = 1) \<and>
            (length (xr ! i) - 1 \<le> k \<longrightarrow> yd ! i ! k = 1)))"
proof (intro conjI)
  show "map_sum id fst (slurped_iteration nsw (g\<lparr>pad_idx_or_symbol := p\<rparr>)) =
     map_sum id fst (slurped_iteration nsw g)"
    by (rule slurped_iteration_pad_irrelevant)
  show "x_sequences g = Table rows \<longrightarrow> slurped_iteration nsw g = Inr ((x, y), g') \<longrightarrow>
      (let xr = fst (shift_windows nsw (skip_step g) (slurped_block (wrap_cursor g) rows))
       in \<forall>i < length xr. \<forall>k. int k < max_seq_len g \<longrightarrow>
            (length (xr ! i) \<le> k \<longrightarrow> x ! i ! k = 1) \<and>
            (length (xr ! i) - 1 \<le> k \<longrightarrow> y ! i ! k = 1))"
  proof (intro impI)
    assume t: "x_sequences g = Table rows"
      and it: "slurped_iteration nsw g = Inr ((x, y), g')"
    note r = slurped_iteration_repad [OF t it]
    show "let xr = fst (shift_windows nsw (skip_step g) (slurped_block (wrap_cursor g) rows))
       in \<forall>i < length xr. \<forall>k. int k < max_seq_len g \<longrightarrow>
            (length (xr ! i) \<le> k \<longrightarrow> x ! i ! k = 1) \<and>
            (length (xr ! i) - 1 \<le> k \<longrightarrow> y ! i ! k = 1)"
      using repad_pad_cells [OF r] by (simp add: Let_def)
  qed
  show "read_block gd f fuel pos [] 0 = Some (Inr (block, pos')) \<longrightarrow>
      pad_sequences Post Post (max_seq_len gd) (pad_idx_or_symbol gd) block = Inr padded \<longrightarrow>
      disk_iteration fuel nsw gd f pos = Some (Inr ((xd, yd), pos')) \<longrightarrow>
      (\<forall>j < length block. \<forall>k. length (block ! j) \<le> k \<longrightarrow> int k < max_seq_len gd \<longrightarrow>
         padded ! j ! k = pad_idx_or_symbol gd) \<and>
      (let xr = fst (shift_windows nsw (skip_step gd) padded)
       in \<forall>i < length xr. \<forall>k. int k < max_seq_len gd \<longrightarrow>
            (length (xr ! i) \<le> k \<longrightarrow> xd ! i ! k = 1) \<and>
            (length (xr ! i) - 1 \<le> k \<longrightarrow> yd ! i ! k = 1))"
  proof (intro impI)
    assume rb: "read_block gd f fuel pos [] 0 = Some (Inr (block, pos'))"
      and pd: "pad_sequences Post Post (max_seq_len gd) (pad_idx_or_symbol gd) block = Inr padded"
      and it: "disk_iteration fuel nsw gd f pos = Some (Inr ((xd, yd), pos'))"
    from it rb pd have r: "repad gd (shift_windows nsw (skip_step gd) padded) = Inr (xd, yd)"
      by (auto simp: disk_iteration_def split: sum.splits)
    have "\<forall>j < length block. \<forall>k. length (block ! j) \<le> k \<longrightarrow> int k < max_seq_len gd \<longrightarrow>
         padded ! j ! k = pad_idx_or_symbol gd"
      using block_padding_cells [OF pd] by blast
    moreover have "let xr = fst (shift_windows nsw (skip_step gd) padded)
       in \<forall>i < length xr. \<forall>k. int k < max_seq_len gd \<longrightarrow>
            (length (xr ! i) \<le> k \<longrightarrow> xd ! i ! k = 1) \<and>
            (length (xr ! i) - 1 \<le> k \<longrightarrow> yd ! i ! k = 1)"
      using repad_pad_cells [OF r] by (simp add: Let_def)
    ultimately show "(\<forall>j < length block. \<forall>k. length (block ! j) \<le> k \<longrightarrow>
         int k < max_seq_len gd \<longrightarrow> padded ! j ! k = pad_idx_or_symbol gd) \<and>
      (let xr = fst (shift_windows nsw (skip_step gd) padded)
       in \<forall>i < length xr. \<forall>k. int k < max_seq_len gd \<longrightarrow>
            (length (xr ! i) \<le> k \<longrightarrow> xd ! i ! k = 1) \<and>
            (length (xr ! i) - 1 \<le> k \<longrightarrow> yd ! i ! k = 1))" ..
  qed
qed

theorem repadding_uses_literal_one_witness:
  "slurped_iteration 2
     \<lparr>x_sequences = Table [[2, 7, 8, 3], [2, 9, 3, 0]],
      explicit_seq_len = 2, no_slurp = False, max_seq_len = 4, min_seq_len = 2,
      num_shifted_sentences = 2, current_idx = 0, skip_step = 2, pad_idx_or_symbol = 0\<rparr> =
     Inr (([[2, 7, 8, 3], [2, 9, 3, 0], [8, 3, 1, 1], [3, 0, 1, 1]],
           [[7, 8, 3, 1], [9, 3, 0, 1], [3, 1, 1, 1], [0, 1, 1, 1]]),
          \<lparr>x_sequences = Table [[2, 7, 8, 3], [2, 9, 3, 0]],
           explicit_seq_len = 2, no_slurp = False, max_seq_len = 4, min_seq_len = 2,
           num_shifted_sentences = 2, current_idx = 2, skip_step = 2,
           pad_idx_or_symbol = 0\<rparr>) \<and>
   [[2, 7, 8, 3], [2, 9, 3, 0], [8, 3, 1, 1], [3, 0, 1, 1 :: int]] ! 3 ! 2 = 1 \<and>
   [[7, 8, 3, 1], [9, 3, 0, 1], [3, 1, 1, 1], [0, 1, 1, 1 :: int]] ! 3 ! 1 = 1 \<and>
   disk_iteration 2 2
     \<lparr>x_sequences = CorpusPath ''ids.txt'', explicit_seq_len = 4, no_slurp = True,
      max_seq_len = 4, min_seq_len = 2, num_shifted_sentences = 2, current_idx = 0,
      skip_step = 2, pad_idx_or_symbol = 0\<rparr>
     [''2 7 8 3\<newline>'', ''2 9 3\<newline>'', ''2 5 6 3 9 9\<newline>'', ''2 4 3''] 0 =
     Some (Inr (([[2, 7, 8, 3], [2, 9, 3, 0], [8, 3, 1, 1], [3, 0, 1, 1]],
                 [[7, 8, 3, 1], [9, 3, 0, 1], [3, 1, 1, 1], [0, 1, 1, 1]]), 2)) \<and>
   [[2, 7, 8, 3], [2, 9, 3, 0 :: int]] ! 1 ! 3 = 0 \<and>
   [[2, 7, 8, 3], [2, 9, 3, 0], [8, 3, 1, 1], [3, 0, 1, 1 :: int]] ! 3 ! 1 = 0 \<and>
   [[2, 7, 8, 3], [2, 9, 3, 0], [8, 3, 1, 1], [3, 0, 1, 1 :: int]] ! 3 ! 3 = 1"
proof -
  let ?rows = "[[2, 7, 8, 3], [2, 9, 3, 0 :: int]]"
  let ?g = "\<lparr>x_sequences = Table ?rows,
      explicit_seq_len = 2, no_slurp = False, max_seq_len = 4, min_seq_len = 2,
      num_shifted_sentences = 2, current_idx = 0, skip_step = 2, pad_idx_or_symbol = 0\<rparr>"
  let ?gd = "\<lparr>x_sequences = CorpusPath ''ids.txt'', explicit_seq_len = 4, no_slurp = True,
      max_seq_len = 4, min_seq_len = 2, num_shifted_sentences = 2, current_idx = 0,
      skip_step = 2, pad_idx_or_symbol = 0\<rparr>"
  let ?f = "[''2 7 8 3\<newline>'', ''2 9 3\<newline>'', ''2 5 6 3 9 9\<newline>'', ''2 4 3'']"
  have t: "x_sequences ?g = Table ?rows" by simp
  have it: "slurped_iteration 2 ?g =
     Inr (([[2, 7, 8, 3], [2, 9, 3, 0], [8, 3, 1, 1], [3, 0, 1, 1]],
           [[7, 8, 3, 1], [9, 3, 0, 1], [3, 1, 1, 1], [0, 1, 1, 1]]),
          ?g\<lparr>current_idx := 2\<rparr>)"
    by code_simp
  have xr: "fst (shift_windows 2 (skip_step ?g) (slurped_block (wrap_cursor ?g) ?rows)) =
     [[2, 7, 8, 3], [2, 9, 3, 0], [8, 3], [3, 0]]"
    by code_simp
  note mem = repadding_uses_literal_one
    [THEN conjunct2, THEN conjunct1, THEN mp, OF t, THEN mp, OF it]
  have rb: "read_block ?gd ?f 2 0 [] 0 = Some (Inr ([[2, 7, 8, 3], [2, 9, 3]], 2))"
    by code_simp
  have pd: "pad_sequences Post Post (max_seq_len ?gd) (pad_idx_or_symbol ?gd)
      [[2, 7, 8, 3], [2, 9, 3]] = Inr [[2, 7, 8, 3], [2, 9, 3, 0]]"
    by code_simp
  have dit: "disk_iteration 2 2 ?gd ?f 0 =
     Some (Inr (([[2, 7, 8, 3], [2, 9, 3, 0], [8, 3, 1, 1], [3, 0, 1, 1]],
                 [[7, 8, 3, 1], [9, 3, 0, 1], [3, 1, 1, 1], [0, 1, 1, 1]]), 2))"
    by code_simp
  note disk = repadding_uses_literal_one
    [THEN conjunct2, THEN conjunct2, THEN mp, OF rb, THEN mp, OF pd, THEN mp, OF dit,
     THEN conjunct1]
  from mem have m: "\<forall>i < 4. \<forall>k. int k < 4 \<longrightarrow>
      (length ([[2, 7, 8, 3], [2, 9, 3, 0], [8, 3], [3, 0 :: int]] ! i) \<le> k \<longrightarrow>
         [[2, 7, 8, 3], [2, 9, 3, 0], [8, 3, 1, 1], [3, 0, 1, 1 :: int]] ! i ! k = 1) \<and>
      (length ([[2, 7, 8, 3], [2, 9, 3, 0], [8, 3], [3, 0 :: int]] ! i) - 1 \<le> k \<longrightarrow>
         [[7, 8, 3, 1], [9, 3, 0, 1], [3, 1, 1, 1], [0, 1, 1, 1 :: int]] ! i ! k = 1)"
    unfolding xr Let_def by simp
  from disk have d: "\<forall>j < 2. \<forall>k. length ([[2, 7, 8, 3], [2, 9, 3 :: int]] ! j) \<le> k \<longrightarrow>
      int k < 4 \<longrightarrow> [[2, 7, 8, 3], [2, 9, 3, 0 :: int]] ! j ! k = 0"
    by simp
  from m [rule_format, of 3 2] m [rule_format, of 3 1] d [rule_format, of 1 3] it dit
  show ?thesis by simp
qed

subsection \<open>The end of the file\<close>

text \<open>
  C8. The test \<^verbatim>\<open>fd.tell() > fsize\<close> is never true (\<open>tell_le_getsize\<close>): at the end
  of the file the offset equals the size, so \<^verbatim>\<open>seek(0)\<close> is never executed. From
  there \<^verbatim>\<open>readline\<close> returns the empty string for ever, and with a positive
  \<^verbatim>\<open>min_seq_len\<close> the loop that collects the block never ends
  (\<open>read_block_at_eof\<close>). On the one-line corpus below the first batch is produced
  (one \<^verbatim>\<open>readline\<close> suffices), and the request for the second batch does not return
  within any number of reads.
\<close>

theorem disk_stuck_at_eof:
  "generate_from_disk (Suc fuel)
     \<lparr>x_sequences = CorpusPath ''ids.txt'', explicit_seq_len = 1, no_slurp = True,
      max_seq_len = 4, min_seq_len = 2, num_shifted_sentences = 1, current_idx = 0,
      skip_step = 2, pad_idx_or_symbol = 1\<rparr>
     [''2 7 8 3\<newline>''] 1 =
     Some (Inr ([([[2, 7, 8, 3], [8, 3, 1, 1]], [[7, 8, 3, 1], [3, 1, 1, 1]])], 1)) \<and>
   generate_from_disk fuel
     \<lparr>x_sequences = CorpusPath ''ids.txt'', explicit_seq_len = 1, no_slurp = True,
      max_seq_len = 4, min_seq_len = 2, num_shifted_sentences = 1, current_idx = 0,
      skip_step = 2, pad_idx_or_symbol = 1\<rparr>
     [''2 7 8 3\<newline>''] 2 = None"
proof -
  let ?g = "\<lparr>x_sequences = CorpusPath ''ids.txt'', explicit_seq_len = 1, no_slurp = True,
      max_seq_len = 4, min_seq_len = 2, num_shifted_sentences = 1, current_idx = 0,
      skip_step = 2, pad_idx_or_symbol = 1\<rparr>"
  let ?f = "[''2 7 8 3\<newline>'']"
  let ?b = "([[2, 7, 8, 3], [8, 3, 1, 1]], [[7, 8, 3, 1], [3, 1, 1, 1 :: int]])"
  have rl: "readline ?f 0 = (''2 7 8 3\<newline>'', 1)" by code_simp
  have gt: "genfromtxt ''2 7 8 3\<newline>'' = Vector [2, 7, 8, 3]" by code_simp
  have rb: "read_block ?g ?f (Suc m) 0 [] 0 = Some (Inr ([[2, 7, 8, 3]], 1))" for m
    by (simp add: seek_is_dead rl gt)
  have pd: "pad_sequences Post Post 4 1 [[2, 7, 8, 3]] = Inr [[2, 7, 8, 3]]" by code_simp
  have rp: "repad ?g (shift_windows 2 2 [[2, 7, 8, 3]]) = Inr ?b" by code_simp
  have it: "disk_iteration (Suc m) 2 ?g ?f 0 = Some (Inr (?b, 1))" for m
    by (simp add: disk_iteration_def rb pd rp del: read_block.simps)
  have eof: "disk_iteration m 2 ?g ?f (Suc 0) = None" for m
    by (simp add: disk_iteration_def read_block_at_eof)
  have nsw: "py_floordiv 4 2 = Inr 2"
    by (simp add: py_floordiv_def)
  have one: "disk_run (Suc m) 2 ?g ?f 0 (Suc 0) = Some (Inr ([?b], 1))" for m
    by (simp add: it)
  have two: "disk_run m 2 ?g ?f 0 (Suc (Suc 0)) = None" for m
  proof (cases m)
    case 0
    then show ?thesis by (simp add: disk_iteration_def)
  next
    case (Suc m')
    then show ?thesis by (simp add: it eof)
  qed
  have "generate_from_disk (Suc fuel) ?g ?f 1 = Some (Inr ([?b], 1))"
    by (simp add: generate_from_disk_def nsw one del: disk_run.simps)
  moreover have "generate_from_disk fuel ?g ?f 2 = None"
    by (simp add: generate_from_disk_def nsw numeral_2_eq_2 two del: disk_run.simps)
  ultimately show ?thesis ..
qed

subsection \<open>The sequence preparer\<close>

lemma prepare_line_long:
  assumes "maxlen < minlen" and "0 < maxlen"
  shows "prepare_line minlen maxlen add_eos p =
     (if int (length p) < minlen then None
      else Some (Inr (if add_eos then (take (nat maxlen) p)[nat maxlen - 1 := 3]
                      else take (nat maxlen) p)))"
proof (cases "int (length p) < minlen")
  case True
  then show ?thesis by (simp add: prepare_line_def)
next
  case False
  with assms have long: "maxlen < int (length p)" by simp
  with assms(2) have "\<not> length p \<le> nat maxlen" by arith
  with assms(2) have cut: "slice 0 maxlen p = take (nat maxlen) p"
    by (simp add: slice_def clip_index_def min_def)
  from long assms(2) have len: "length (take (nat maxlen) p) = nat maxlen" by simp
  from assms(2) have "nat (int (nat maxlen) - 1) = nat maxlen - 1" by arith
  with assms(2) have "setitem (take (nat maxlen) p) (- 1) 3 =
      Inr ((take (nat maxlen) p)[nat maxlen - 1 := 3])"
    unfolding setitem_def len by simp
  with False long cut show ?thesis by (simp add: prepare_line_def)
qed

lemma prepare_loop_long:
  assumes "maxlen < minlen" and "0 < maxlen"
  shows "prepare_loop encode minlen maxlen add_eos lines acc =
     Inr (acc @ map (\<lambda>p. if add_eos then (take (nat maxlen) p)[nat maxlen - 1 := 3]
                           else take (nat maxlen) p)
                  (filter (\<lambda>p. minlen \<le> int (length p)) (map encode lines)))"
  by (induction lines arbitrary: acc) (simp_all add: prepare_line_long [OF assms])

lemma pad_row_pre_exact:
  assumes "length s = nat m" and "0 < m"
  shows "pad_row padding Pre m v s = Inr s"
proof -
  from assms have "s \<noteq> []" by auto
  moreover from assms have "slice_from (- m) s = s"
    by (simp add: slice_from_def clip_index_def)
  ultimately show ?thesis using assms
    by (cases padding) (simp_all add: pad_row_def)
qed

text \<open>
  C5, as stated, fails: \<^verbatim>\<open>prepare_sequences\<close> does not compare \<^verbatim>\<open>min_seq_len\<close>
  with \<^verbatim>\<open>max_seq_len\<close>. With \<open>min_seq_len = 5 > max_seq_len = 3\<close> and ten lines of
  six ids each (the tokenizer here maps a character to its code) it returns a table.
\<close>

theorem preparer_length_check_counterexample:
  "prepare_sequences (map (\<lambda>c. int (of_char c))) 5 3 True Post
     [''abcdef'', ''abcdef'', ''abcdef'', ''abcdef'', ''abcdef'',
      ''abcdef'', ''abcdef'', ''abcdef'', ''abcdef'', ''abcdef''] =
   Inr [[97, 98, 3], [97, 98, 3], [97, 98, 3], [97, 98, 3], [97, 98, 3],
        [97, 98, 3], [97, 98, 3], [97, 98, 3], [97, 98, 3], [97, 98, 3]]"
  by code_simp

text \<open>
  C5, amended. The sequence preparer raises no configuration error when
  \<open>min_seq_len > max_seq_len > 0\<close>: it drops every line of fewer than \<open>min_seq_len\<close>
  ids, cuts every other line to its first \<open>max_seq_len\<close> ids (the last of them
  overwritten by \<open>3\<close> under \<^verbatim>\<open>add_eos\<close>) and returns the table of these rows; only
  when fewer than ten lines remain does it fail, with the \<^verbatim>\<open>IndexError\<close> of the loop
  that logs the first ten sequences.
\<close>

theorem preparer_without_length_check:
  assumes "maxlen < minlen" and "0 < maxlen"
  shows "prepare_sequences encode minlen maxlen add_eos padding_direction lines =
     (let kept = filter (\<lambda>p. minlen \<le> int (length p)) (map encode lines)
      in if length kept < 10 then Inl IndexError
         else Inr (map (\<lambda>p. if add_eos then (take (nat maxlen) p)[nat maxlen - 1 := 3]
                             else take (nat maxlen) p) kept))"
proof -
  let ?cut = "\<lambda>p. if add_eos then (take (nat maxlen) p)[nat maxlen - 1 := 3]
                   else take (nat maxlen) p"
  let ?kept = "filter (\<lambda>p. minlen \<le> int (length p)) (map encode lines)"
  have "pad_row padding_direction Pre maxlen PAD_ID (?cut p) = Inr (?cut p)"
    if "p \<in> set ?kept" for p
  proof (rule pad_row_pre_exact [OF _ assms(2)])
    from that assms have "nat maxlen \<le> length p" by auto
    then show "length (?cut p) = nat maxlen" by simp
  qed
  then have "collect (map (pad_row padding_direction Pre maxlen PAD_ID) (map ?cut ?kept)) =
      Inr (map ?cut ?kept)"
    by (simp add: collect_Inr_iff comp_def)
  with assms(2) have "pad_sequences padding_direction Pre maxlen PAD_ID (map ?cut ?kept) =
      Inr (map ?cut ?kept)"
    by (simp add: pad_sequences_def)
  then show ?thesis
    by (simp add: prepare_sequences_def prepare_loop_long [OF assms] Let_def)
qed

theorem preparer_without_length_check_witness:
  "prepare_sequences (map (\<lambda>c. int (of_char c))) 5 3 False Pre
     [''abcdef'', ''abcd'', ''abcdef'', ''abcdef'', ''abcdef'', ''abcdef'',
      ''abcdef'', ''abcdef'', ''abcdef'', ''abcdef'', ''abcdef''] =
   Inr [[97, 98, 99], [97, 98, 99], [97, 98, 99], [97, 98, 99], [97, 98, 99],
        [97, 98, 99], [97, 98, 99], [97, 98, 99], [97, 98, 99], [97, 98, 99]]"
  using preparer_without_length_check [of 3 5 "map (\<lambda>c. int (of_char c))" False Pre
      "[''abcdef'', ''abcd'', ''abcdef'', ''abcdef'', ''abcdef'', ''abcdef'',
        ''abcdef'', ''abcdef'', ''abcdef'', ''abcdef'', ''abcdef'']"]
  by simp

subsection \<open>The two strategies on the same sequences\<close>

lemma setitem_in_range:
  assumes "0 < m" and "m < int (length s)"
  shows "setitem s (m - 1) v = Inr (s[nat (m - 1) := v])"
  using assms by (simp add: setitem_def)

lemma read_block_next_valid:
  fixes g :: generator and seqs :: "int list list"
  defines "valid \<equiv> \<lambda>s. min_seq_len g \<le> int (length s)"
    and "ovr \<equiv> \<lambda>s. if int (length s) > max_seq_len g
                      then s[nat (max_seq_len g - 1) := 3] else s"
  assumes parse: "map genfromtxt f = map Vector seqs"
    and max: "0 < max_seq_len g"
    and cnt: "cnt < num_shifted_sentences g"
    and enough: "nat (num_shifted_sentences g - cnt) \<le> length (filter valid (drop pos seqs))"
    and fuel: "length f - pos \<le> fuel"
  shows "\<exists>pos'. read_block g f fuel pos acc cnt =
           Some (Inr (acc @ map ovr (take (nat (num_shifted_sentences g - cnt))
                                       (filter valid (drop pos seqs))), pos')) \<and>
         filter valid (drop pos' seqs) =
           drop (nat (num_shifted_sentences g - cnt)) (filter valid (drop pos seqs))"
  using cnt enough fuel
proof (induction fuel arbitrary: pos acc cnt)
  case 0
  from parse have len: "length seqs = length f" by (metis length_map)
  from 0 have "length f \<le> pos" by simp
  with len have "filter valid (drop pos seqs) = []" by simp
  with 0 show ?case by simp
next
  case (Suc fuel)
  let ?n = "num_shifted_sentences g"
  from parse have len: "length seqs = length f" by (metis length_map)
  have inside: "pos < length f"
  proof (rule ccontr)
    assume "\<not> pos < length f"
    with len have "filter valid (drop pos seqs) = []" by simp
    with Suc.prems show False by simp
  qed
  let ?s = "seqs ! pos"
  from inside have rl: "readline f pos = (f ! pos, Suc pos)" by (simp add: readline_def)
  from parse inside len have gt: "genfromtxt (f ! pos) = Vector ?s"
    by (metis nth_map)
  from inside len have dr: "drop pos seqs = ?s # drop (Suc pos) seqs"
    by (simp add: Cons_nth_drop_Suc)
  from inside Suc.prems(3) have fuel': "length f - Suc pos \<le> fuel" by simp
  show ?case
  proof (cases "valid ?s")
    case False
    then have skip: "int (length ?s) < min_seq_len g" by (simp add: valid_def)
    from False have same: "filter valid (drop pos seqs) = filter valid (drop (Suc pos) seqs)"
      by (simp add: dr)
    from Suc.IH [OF Suc.prems(1) Suc.prems(2) [unfolded same] fuel', of acc]
    show ?thesis by (simp add: seek_is_dead rl gt skip same)
  next
    case True
    then have keep: "\<not> int (length ?s) < min_seq_len g" by (simp add: valid_def)
    from True have cons: "filter valid (drop pos seqs) = ?s # filter valid (drop (Suc pos) seqs)"
      by (simp add: dr)
    have ok: "(if int (length ?s) > max_seq_len g
               then setitem ?s (max_seq_len g - 1) 3 else Inr ?s) = Inr (ovr ?s)"
      using max by (simp add: ovr_def setitem_in_range)
    show ?thesis
    proof (cases "cnt + 1 \<ge> ?n")
      case True
      with Suc.prems(1) have one: "nat (?n - cnt) = 1" by simp
      from True show ?thesis
        by (simp add: seek_is_dead rl gt keep ok one cons)
    next
      case False
      then have more: "cnt + 1 < ?n" by simp
      then have m: "nat (?n - cnt) = Suc (nat (?n - (cnt + 1)))" by simp
      from Suc.prems(2) have enough': "nat (?n - (cnt + 1)) \<le> length (filter valid (drop (Suc pos) seqs))"
        by (simp add: m cons)
      from Suc.IH [OF more enough' fuel', of "acc @ [ovr ?s]"] False
      show ?thesis
        by (simp add: seek_is_dead rl gt keep ok m cons)
    qed
  qed
qed

lemma strategies_simulate:
  fixes gm gd :: generator and seqs :: "int list list"
  defines "valid \<equiv> \<lambda>s. min_seq_len gd \<le> int (length s)"
    and "ovr \<equiv> \<lambda>s. if int (length s) > max_seq_len gd
                      then s[nat (max_seq_len gd - 1) := 3] else s"
  defines "prep \<equiv> \<lambda>s. take (nat (max_seq_len gd)) (ovr s) @
                        replicate (nat (max_seq_len gd) - length s) (pad_idx_or_symbol gd)"
  assumes parse: "map genfromtxt f = map Vector seqs"
    and table: "x_sequences gm = Table (map prep (filter valid seqs))"
    and esl: "explicit_seq_len gm = int (length (filter valid seqs))"
    and same: "max_seq_len gm = max_seq_len gd" "skip_step gm = skip_step gd"
      "num_shifted_sentences gm = num_shifted_sentences gd"
    and max: "0 < max_seq_len gd" and n: "0 < num_shifted_sentences gd"
    and fuel: "length f \<le> fuel"
    and cur: "current_idx gm = int i"
    and inv: "filter valid (drop pos seqs) = drop i (filter valid seqs)"
    and before: "i + k * nat (num_shifted_sentences gd) < length (filter valid seqs)"
  shows "\<exists>bs pos'. disk_run fuel nsw gd f pos k = Some (Inr (bs, pos')) \<and>
           slurped_run nsw gm k =
             Inr (bs, gm\<lparr>current_idx := int i + int k * num_shifted_sentences gd\<rparr>)"
  using table esl same cur inv before
proof (induction k arbitrary: gm i pos)
  case 0
  then show ?case by simp
next
  case (Suc k)
  let ?n = "num_shifted_sentences gd" and ?V = "filter valid seqs"
  let ?nn = "nat ?n"
  let ?raw = "take ?nn (drop i ?V)"
  let ?rows = "map prep ?V"
  note t = Suc.prems(1) and e = Suc.prems(2) and s = Suc.prems(3-5) and c = Suc.prems(6)
    and iv = Suc.prems(7) and bw = Suc.prems(8)
  from bw have room: "i + ?nn < length ?V" by simp
  \<comment> \<open>the turn of the in-memory loop\<close>
  from room n have nowrap: "wrap_cursor gm = gm"
    by (simp add: wrap_cursor_def c e s)
  from room n have "slice (int i) (int i + ?n) ?rows = take ?nn (drop (nat (int i)) ?rows)"
    by (intro length_slice) simp_all
  then have mblock: "slurped_block (wrap_cursor gm) ?rows = map prep ?raw"
    by (simp add: nowrap slurped_block_def c s take_map drop_map)
  \<comment> \<open>the turn of the on-disk loop\<close>
  have "\<exists>pos'. read_block gd f fuel pos [] 0 =
           Some (Inr ([] @ map ovr (take (nat (?n - 0)) (filter valid (drop pos seqs))), pos')) \<and>
         filter valid (drop pos' seqs) = drop (nat (?n - 0)) (filter valid (drop pos seqs))"
    unfolding valid_def ovr_def
  proof (rule read_block_next_valid [OF parse max])
    show "0 < ?n" by (rule n)
    show "nat (?n - 0) \<le> length (filter (\<lambda>s. min_seq_len gd \<le> int (length s)) (drop pos seqs))"
      using room iv by (simp add: valid_def)
    show "length f - pos \<le> fuel" using fuel by simp
  qed
  then obtain pos1 where
    rb: "read_block gd f fuel pos [] 0 = Some (Inr (map ovr ?raw, pos1))" and
    iv1: "filter valid (drop pos1 seqs) = drop ?nn (filter valid (drop pos seqs))"
    by (auto simp: iv)
  have "length (ovr s) = length s" for s by (simp add: ovr_def)
  then have "map (\<lambda>s. take (nat (max_seq_len gd)) s @
                replicate (nat (max_seq_len gd) - length s) (pad_idx_or_symbol gd))
              (map ovr ?raw) = map prep ?raw"
    by (simp add: prep_def)
  with pad_sequences_post_post [of "max_seq_len gd" "pad_idx_or_symbol gd" "map ovr ?raw"] max
  have pd: "pad_sequences Post Post (max_seq_len gd) (pad_idx_or_symbol gd) (map ovr ?raw) =
      Inr (map prep ?raw)"
    by simp
  \<comment> \<open>the same block gives the same batch\<close>
  obtain x y where rp: "repad gd (shift_windows nsw (skip_step gd) (map prep ?raw)) = Inr (x, y)"
    using repad_total [OF max] by blast
  have "repad gm = repad gd"
    by (rule ext) (rule repad_max_seq_len, simp add: s)
  with rp have rpm: "repad gm (shift_windows nsw (skip_step gm) (map prep ?raw)) = Inr (x, y)"
    by (simp add: s)
  let ?gm1 = "gm\<lparr>current_idx := int (i + ?nn)\<rparr>"
  from n have adv: "int i + ?n = int (i + ?nn)" by simp
  have "current_idx (wrap_cursor gm) + num_shifted_sentences gm = int (i + ?nn)"
    unfolding nowrap c s by (rule adv)
  then have mit: "slurped_iteration nsw gm = Inr ((x, y), ?gm1)"
    unfolding slurped_iteration_Table [OF t] mblock rpm by simp
  have dit: "disk_iteration fuel nsw gd f pos = Some (Inr ((x, y), pos1))"
    by (simp add: disk_iteration_def rb pd rp)
  \<comment> \<open>the remaining turns\<close>
  have "\<exists>bs pos'. disk_run fuel nsw gd f pos1 k = Some (Inr (bs, pos')) \<and>
           slurped_run nsw ?gm1 k =
             Inr (bs, ?gm1\<lparr>current_idx := int (i + ?nn) + int k * ?n\<rparr>)"
  proof (rule Suc.IH)
    show "x_sequences ?gm1 = Table ?rows" using t by simp
    show "explicit_seq_len ?gm1 = int (length ?V)" using e by simp
    show "max_seq_len ?gm1 = max_seq_len gd" "skip_step ?gm1 = skip_step gd"
      "num_shifted_sentences ?gm1 = ?n" using s by simp_all
    show "current_idx ?gm1 = int (i + ?nn)" by simp
    show "filter valid (drop pos1 seqs) = drop (i + ?nn) ?V"
      by (simp add: iv1 iv add.commute)
    show "i + ?nn + k * ?nn < length ?V" using bw by (simp add: algebra_simps)
  qed
  then obtain bs pos' where
    dr: "disk_run fuel nsw gd f pos1 k = Some (Inr (bs, pos'))" and
    mr: "slurped_run nsw ?gm1 k = Inr (bs, ?gm1\<lparr>current_idx := int (i + ?nn) + int k * ?n\<rparr>)"
    by blast
  from n have "int (i + ?nn) + int k * ?n = int i + int (Suc k) * ?n"
    by (simp add: algebra_simps)
  with mr have mr': "slurped_run nsw ?gm1 k =
      Inr (bs, gm\<lparr>current_idx := int i + int (Suc k) * ?n\<rparr>)"
    by simp
  from dit dr mit mr' show ?case by simp
qed

text \<open>
  C9, as stated, fails when the table of the in-memory strategy is padded on the left, as
  the preparer pads it under \<^verbatim>\<open>padding_direction = pre\<close> (and as the sequence in the
  docstring of the generator is): the on-disk strategy always pads on the right. Ten
  sequences, the first of two ids, with \<open>max_seq_len = 3\<close>, \<open>min_seq_len = 2\<close>,
  \<open>skip_step = 3\<close>, \<open>num_shifted_sentences = 1\<close> and pad id \<open>1\<close>: the table is what
  \<^verbatim>\<open>prepare_sequences\<close> returns for them, the file holds the same ids line by line, and
  the first batches of the two strategies differ.
\<close>

theorem strategies_agree_counterexample:
  "prepare_sequences (map (\<lambda>c. int (of_char c))) 2 3 True Pre
     [''ab'', ''abc'', ''abc'', ''abc'', ''abc'', ''abc'', ''abc'', ''abc'', ''abc'', ''abc''] =
     Inr [[1, 97, 98], [97, 98, 99], [97, 98, 99], [97, 98, 99], [97, 98, 99],
          [97, 98, 99], [97, 98, 99], [97, 98, 99], [97, 98, 99], [97, 98, 99]] \<and>
   map genfromtxt
     [''97 98\<newline>'', ''97 98 99\<newline>'', ''97 98 99\<newline>'', ''97 98 99\<newline>'',
      ''97 98 99\<newline>'', ''97 98 99\<newline>'', ''97 98 99\<newline>'', ''97 98 99\<newline>'',
      ''97 98 99\<newline>'', ''97 98 99\<newline>''] =
     map (\<lambda>line. Vector (map (\<lambda>c. int (of_char c)) line))
       [''ab'', ''abc'', ''abc'', ''abc'', ''abc'', ''abc'', ''abc'', ''abc'', ''abc'', ''abc''] \<and>
   generate_slurped
     \<lparr>x_sequences =
        Table [[1, 97, 98], [97, 98, 99], [97, 98, 99], [97, 98, 99], [97, 98, 99],
               [97, 98, 99], [97, 98, 99], [97, 98, 99], [97, 98, 99], [97, 98, 99]],
      explicit_seq_len = 10, no_slurp = False, max_seq_len = 3, min_seq_len = 2,
      num_shifted_sentences = 1, current_idx = 0, skip_step = 3, pad_idx_or_symbol = 1\<rparr> 1 =
     Inr ([([[1, 97, 98]], [[97, 98, 1]])],
          \<lparr>x_sequences =
             Table [[1, 97, 98], [97, 98, 99], [97, 98, 99], [97, 98, 99], [97, 98, 99],
                    [97, 98, 99], [97, 98, 99], [97, 98, 99], [97, 98, 99], [97, 98, 99]],
           explicit_seq_len = 10, no_slurp = False, max_seq_len = 3, min_seq_len = 2,
           num_shifted_sentences = 1, current_idx = 1, skip_step = 3,
           pad_idx_or_symbol = 1\<rparr>) \<and>
   generate_from_disk 1
     \<lparr>x_sequences = CorpusPath ''ids.txt'', explicit_seq_len = 10, no_slurp = True,
      max_seq_len = 3, min_seq_len = 2, num_shifted_sentences = 1, current_idx = 0,
      skip_step = 3, pad_idx_or_symbol = 1\<rparr>
     [''97 98\<newline>'', ''97 98 99\<newline>'', ''97 98 99\<newline>'', ''97 98 99\<newline>'',
      ''97 98 99\<newline>'', ''97 98 99\<newline>'', ''97 98 99\<newline>'', ''97 98 99\<newline>'',
      ''97 98 99\<newline>'', ''97 98 99\<newline>''] 1 =
     Some (Inr ([([[97, 98, 1]], [[98, 1, 1]])], 1))"
  by code_simp

text \<open>
  C9, amended. Let the file hold the sequences \<open>seqs\<close>, one per line, every line
  parsing to a one-dimensional array, and let the table of the in-memory strategy hold,
  in the same order, the sequences of at least \<open>min_seq_len\<close> ids, each as the on-disk
  strategy prepares it: the id at position \<open>max_seq_len - 1\<close> overwritten by \<open>3\<close>
  when the sequence is longer than \<open>max_seq_len\<close>, then cut and padded on the right to
  \<open>max_seq_len\<close> columns with the pad id. With the same \<open>max_seq_len\<close>,
  \<open>min_seq_len\<close>, \<open>skip_step > 0\<close>, \<open>num_shifted_sentences > 0\<close> and pad id, the
  first \<open>k\<close> batches of the two strategies are identical for every \<open>k\<close> before the
  in-memory strategy wraps (\<open>k * num_shifted_sentences < explicit_seq_len\<close>), and both
  strategies do return them; the on-disk strategy needs no more reads per batch than the
  file has lines.
\<close>

theorem strategies_agree_before_wrap:
  assumes "map genfromtxt f = map Vector seqs"
    and "x_sequences g =
           Table (map (\<lambda>s. take (nat (max_seq_len g))
                              (if int (length s) > max_seq_len g
                               then s[nat (max_seq_len g - 1) := 3] else s) @
                            replicate (nat (max_seq_len g) - length s) (pad_idx_or_symbol g))
                    (filter (\<lambda>s. min_seq_len g \<le> int (length s)) seqs))"
    and "explicit_seq_len g = int (length (filter (\<lambda>s. min_seq_len g \<le> int (length s)) seqs))"
    and "current_idx g = 0"
    and "0 < skip_step g" and "skip_step g \<le> max_seq_len g"
    and "0 < num_shifted_sentences g"
    and "int k * num_shifted_sentences g < explicit_seq_len g"
    and "length f \<le> fuel"
  shows "\<exists>bs pos.
           generate_from_disk fuel
             (g\<lparr>x_sequences := CorpusPath p, explicit_seq_len := e, no_slurp := True\<rparr>) f k =
             Some (Inr (bs, pos)) \<and>
           generate_slurped g k =
             Inr (bs, g\<lparr>current_idx := int k * num_shifted_sentences g\<rparr>)"
proof (cases "k = 0")
  case True
  with assms(4) show ?thesis
    by (simp add: generate_from_disk_def generate_slurped_def)
next
  case False
  let ?gd = "g\<lparr>x_sequences := CorpusPath p, explicit_seq_len := e, no_slurp := True\<rparr>"
  let ?nsw = "max_seq_len g div skip_step g"
  let ?V = "filter (\<lambda>s. min_seq_len g \<le> int (length s)) seqs"
  from assms(5,6) have max: "0 < max_seq_len ?gd" by simp
  from assms(5) have w: "py_floordiv (max_seq_len g) (skip_step g) = Inr ?nsw"
    by (simp add: py_floordiv_def)
  from assms(7,8) have "int (k * nat (num_shifted_sentences g)) < int (length ?V)"
    by (simp add: assms(3))
  then have "k * nat (num_shifted_sentences g) < length ?V"
    unfolding of_nat_less_iff .
  then have before: "0 + k * nat (num_shifted_sentences ?gd) < length ?V"
    by simp
  have "\<exists>bs pos'. disk_run fuel ?nsw ?gd f 0 k = Some (Inr (bs, pos')) \<and>
           slurped_run ?nsw g k =
             Inr (bs, g\<lparr>current_idx := int 0 + int k * num_shifted_sentences ?gd\<rparr>)"
    using assms(1-4,7,9) max before
    by (intro strategies_simulate) simp_all
  with False show ?thesis
    by (simp add: generate_from_disk_def generate_slurped_def w)
qed

theorem strategies_agree_before_wrap_witness:
  "(\<exists>pos. generate_from_disk 6
     \<lparr>x_sequences = CorpusPath ''ids.txt'', explicit_seq_len = 6, no_slurp = True,
      max_seq_len = 4, min_seq_len = 3, num_shifted_sentences = 2, current_idx = 0,
      skip_step = 2, pad_idx_or_symbol = 1\<rparr>
     [''2 7 8 3\<newline>'', ''2 9 3\<newline>'', ''2 3\<newline>'', ''2 5 6 3 9 9\<newline>'',
      ''2 4 3\<newline>'', ''2 6 6 3'']
     1 =
     Some (Inr ([([[2, 7, 8, 3], [2, 9, 3, 1], [8, 3, 1, 1], [3, 1, 1, 1]],
                  [[7, 8, 3, 1], [9, 3, 1, 1], [3, 1, 1, 1], [1, 1, 1, 1]])], pos))) \<and>
   generate_slurped
     \<lparr>x_sequences = Table [[2, 7, 8, 3], [2, 9, 3, 1], [2, 5, 6, 3], [2, 4, 3, 1],
                          [2, 6, 6, 3]],
      explicit_seq_len = 5, no_slurp = False, max_seq_len = 4, min_seq_len = 3,
      num_shifted_sentences = 2, current_idx = 0, skip_step = 2, pad_idx_or_symbol = 1\<rparr> 1 =
     Inr ([([[2, 7, 8, 3], [2, 9, 3, 1], [8, 3, 1, 1], [3, 1, 1, 1]],
            [[7, 8, 3, 1], [9, 3, 1, 1], [3, 1, 1, 1], [1, 1, 1, 1]])],
          \<lparr>x_sequences = Table [[2, 7, 8, 3], [2, 9, 3, 1], [2, 5, 6, 3], [2, 4, 3, 1],
                               [2, 6, 6, 3]],
           explicit_seq_len = 5, no_slurp = False, max_seq_len = 4, min_seq_len = 3,
           num_shifted_sentences = 2, current_idx = 2, skip_step = 2,
           pad_idx_or_symbol = 1\<rparr>)"
proof -
  let ?rows = "[[2, 7, 8, 3], [2, 9, 3, 1], [2, 5, 6, 3], [2, 4, 3, 1], [2, 6, 6, 3 :: int]]"
  let ?seqs = "[[2, 7, 8, 3], [2, 9, 3], [2, 3], [2, 5, 6, 3, 9, 9], [2, 4, 3], [2, 6, 6, 3 :: int]]"
  let ?f = "[''2 7 8 3\<newline>'', ''2 9 3\<newline>'', ''2 3\<newline>'', ''2 5 6 3 9 9\<newline>'',
      ''2 4 3\<newline>'', ''2 6 6 3'']"
  let ?g = "\<lparr>x_sequences = Table ?rows,
      explicit_seq_len = 5, no_slurp = False, max_seq_len = 4, min_seq_len = 3,
      num_shifted_sentences = 2, current_idx = 0, skip_step = 2, pad_idx_or_symbol = 1\<rparr>"
  have parse: "map genfromtxt ?f = map Vector ?seqs" by code_simp
  have table: "x_sequences ?g =
           Table (map (\<lambda>s. take (nat (max_seq_len ?g))
                              (if int (length s) > max_seq_len ?g
                               then s[nat (max_seq_len ?g - 1) := 3] else s) @
                            replicate (nat (max_seq_len ?g) - length s) (pad_idx_or_symbol ?g))
                    (filter (\<lambda>s. min_seq_len ?g \<le> int (length s)) ?seqs))"
    by code_simp
  have esl: "explicit_seq_len ?g =
      int (length (filter (\<lambda>s. min_seq_len ?g \<le> int (length s)) ?seqs))"
    by simp
  have rest: "current_idx ?g = 0" "0 < skip_step ?g" "skip_step ?g \<le> max_seq_len ?g"
    "0 < num_shifted_sentences ?g" "int 1 * num_shifted_sentences ?g < explicit_seq_len ?g"
    "length ?f \<le> 6"
    by simp_all
  have mem: "generate_slurped ?g 1 =
     Inr ([([[2, 7, 8, 3], [2, 9, 3, 1], [8, 3, 1, 1], [3, 1, 1, 1]],
            [[7, 8, 3, 1], [9, 3, 1, 1], [3, 1, 1, 1], [1, 1, 1, 1]])],
          ?g\<lparr>current_idx := 2\<rparr>)"
    by code_simp
  from strategies_agree_before_wrap [OF parse table esl rest, where p = "''ids.txt''" and e = 6] mem
  show ?thesis by simp
qed

text \<open>
  The statement above says nothing of a line that holds exactly one id. There
  \<^verbatim>\<open>np.genfromtxt\<close> returns a zero-dimensional array, and \<^verbatim>\<open>len\<close> of it raises
  \<^verbatim>\<open>TypeError\<close> in the on-disk strategy, before the comparison with
  \<^verbatim>\<open>min_seq_len\<close>, while the in-memory strategy emits the padded sequence.
\<close>

lemma disk_raises_on_single_id:
  "generate_slurped
     \<lparr>x_sequences = Table [[5, 1], [2, 3]], explicit_seq_len = 2, no_slurp = False,
      max_seq_len = 2, min_seq_len = 1, num_shifted_sentences = 1, current_idx = 0,
      skip_step = 2, pad_idx_or_symbol = 1\<rparr> 1 =
     Inr ([([[5, 1]], [[1, 1]])],
          \<lparr>x_sequences = Table [[5, 1], [2, 3]], explicit_seq_len = 2, no_slurp = False,
           max_seq_len = 2, min_seq_len = 1, num_shifted_sentences = 1, current_idx = 1,
           skip_step = 2, pad_idx_or_symbol = 1\<rparr>) \<and>
   generate_from_disk 2
     \<lparr>x_sequences = CorpusPath ''ids.txt'', explicit_seq_len = 2, no_slurp = True,
      max_seq_len = 2, min_seq_len = 1, num_shifted_sentences = 1, current_idx = 0,
      skip_step = 2, pad_idx_or_symbol = 1\<rparr>
     [''5\<newline>'', ''2 3\<newline>''] 1 = Some (Inl TypeError)"
  by code_simp

end
